theory Spec2Isabelle
  imports Complex_Main "HOL-Library.Word" "HOL-Library.Multiset"
    "HOL-Library.Char_ord" "HOL-Library.List_Lexorder"
begin

section \<open>Python values used by \<^verbatim>\<open>linehaul/server.py\<close>\<close>

text \<open>
  A Python \<^verbatim>\<open>str\<close> is a sequence of Unicode code points, a \<^verbatim>\<open>bytes\<close> object a
  sequence of octets.
\<close>

type_synonym pystr = "nat list"
type_synonym pybytes = "8 word list"

text \<open>
  The exception classes that can travel through the functions of the module.  The first
  five are subclasses of \<^verbatim>\<open>Exception\<close>; \<^verbatim>\<open>UnicodeDecodeError\<close> is a subclass of
  \<^verbatim>\<open>ValueError\<close>.  \<^verbatim>\<open>trio.Cancelled\<close>, \<^verbatim>\<open>KeyboardInterrupt\<close> and \<^verbatim>\<open>SystemExit\<close> derive
  from \<^verbatim>\<open>BaseException\<close> only.
\<close>

datatype exn =
    UnicodeDecodeError
  | ValueError
  | IndexError
  | TooSlowError
  | OtherException string
  | Cancelled
  | KeyboardInterrupt
  | SystemExit

fun is_ValueError :: "exn \<Rightarrow> bool" where
  "is_ValueError UnicodeDecodeError = True"
| "is_ValueError ValueError = True"
| "is_ValueError _ = False"

fun is_TooSlowError :: "exn \<Rightarrow> bool" where
  "is_TooSlowError TooSlowError = True"
| "is_TooSlowError _ = False"

fun is_Exception :: "exn \<Rightarrow> bool" where
  "is_Exception Cancelled = False"
| "is_Exception KeyboardInterrupt = False"
| "is_Exception SystemExit = False"
| "is_Exception _ = True"

subsection \<open>\<^verbatim>\<open>bytes.decode("utf8")\<close>\<close>

text \<open>
  The strict UTF-8 decoder: the well-formed byte sequences of the Unicode standard
  (shortest form only, no surrogates, nothing above U+10FFFF).  Any other input, a
  truncated sequence included, raises \<^verbatim>\<open>UnicodeDecodeError\<close>.
\<close>

definition cont :: "nat \<Rightarrow> bool" where
  "cont b \<longleftrightarrow> 128 \<le> b \<and> b \<le> 191"

definition second_ok :: "nat \<Rightarrow> nat \<Rightarrow> bool" where
  "second_ok b0 b1 \<longleftrightarrow>
     (if b0 = 224 then 160 \<le> b1 \<and> b1 \<le> 191
      else if b0 = 237 then 128 \<le> b1 \<and> b1 \<le> 159
      else if b0 = 240 then 144 \<le> b1 \<and> b1 \<le> 191
      else if b0 = 244 then 128 \<le> b1 \<and> b1 \<le> 143
      else cont b1)"

definition cons_ok :: "nat \<Rightarrow> exn + pystr \<Rightarrow> exn + pystr" where
  "cons_ok c r = (case r of Inl e \<Rightarrow> Inl e | Inr s \<Rightarrow> Inr (c # s))"

fun utf8_decode :: "nat list \<Rightarrow> exn + pystr" where
  "utf8_decode [] = Inr []"
| "utf8_decode (b0 # bs) =
     (if b0 < 128 then cons_ok b0 (utf8_decode bs)
      else if 194 \<le> b0 \<and> b0 \<le> 223 then
        (case bs of
           b1 # r \<Rightarrow>
             if cont b1 then cons_ok ((b0 - 192) * 64 + (b1 - 128)) (utf8_decode r)
             else Inl UnicodeDecodeError
         | _ \<Rightarrow> Inl UnicodeDecodeError)
      else if 224 \<le> b0 \<and> b0 \<le> 239 then
        (case bs of
           b1 # b2 # r \<Rightarrow>
             if second_ok b0 b1 \<and> cont b2
             then cons_ok ((b0 - 224) * 4096 + (b1 - 128) * 64 + (b2 - 128)) (utf8_decode r)
             else Inl UnicodeDecodeError
         | _ \<Rightarrow> Inl UnicodeDecodeError)
      else if 240 \<le> b0 \<and> b0 \<le> 244 then
        (case bs of
           b1 # b2 # b3 # r \<Rightarrow>
             if second_ok b0 b1 \<and> cont b2 \<and> cont b3
             then cons_ok ((b0 - 240) * 262144 + (b1 - 128) * 4096 + (b2 - 128) * 64 + (b3 - 128))
                    (utf8_decode r)
             else Inl UnicodeDecodeError
         | _ \<Rightarrow> Inl UnicodeDecodeError)
      else Inl UnicodeDecodeError)"

definition bytes_decode :: "pybytes \<Rightarrow> exn + pystr" where
  "bytes_decode line = utf8_decode (map unat line)"

definition startswith :: "pystr \<Rightarrow> pystr \<Rightarrow> bool" where
  "startswith s t \<longleftrightarrow> take (length t) s = t"

section \<open>Non I/O functions\<close>

subsection \<open>\<^verbatim>\<open>parse_line\<close>\<close>

text \<open>
  \<^verbatim>\<open>linehaul.syslog.parser.parse\<close> and \<^verbatim>\<open>linehaul.events.parser.parse\<close> are imported
  from other modules; they are parameters here (\<open>sp\<close>, \<open>ep\<close>), as is the \<^verbatim>\<open>message\<close>
  attribute of a parsed syslog message (\<open>msgf\<close>).  A parser either returns a value or
  raises.  Beside its outcome, \<open>parse_line\<close> reports the parser calls it made, in order.
\<close>

datatype parser_call = SyslogParse pystr | EventParse pystr

definition parse_line ::
  "(pystr \<Rightarrow> exn + 'm) \<Rightarrow> ('m \<Rightarrow> pystr) \<Rightarrow> (pystr \<Rightarrow> exn + 'e) \<Rightarrow>
     pybytes \<Rightarrow> pystr option \<Rightarrow> (exn + 'e option) \<times> parser_call list" where
  "parse_line sp msgf ep line token =
     (case bytes_decode line of
        Inl e \<Rightarrow> (Inl e, [])
      | Inr s \<Rightarrow>
          (case (case token of
                   None \<Rightarrow> Some s
                 | Some t \<Rightarrow> if \<not> startswith s t then None else Some (drop (length t) s)) of
             None \<Rightarrow> (Inr None, [])
           | Some s' \<Rightarrow>
               (case sp s' of
                  Inl e \<Rightarrow> (if is_ValueError e then Inr None else Inl e, [SyslogParse s'])
                | Inr msg \<Rightarrow>
                    (case ep (msgf msg) of
                       Inl e \<Rightarrow> (if is_ValueError e then Inr None else Inl e,
                                 [SyslogParse s', EventParse (msgf msg)])
                     | Inr event \<Rightarrow> (Inr (Some event),
                                 [SyslogParse s', EventParse (msgf msg)])))))"

subsection \<open>\<^verbatim>\<open>extract_item_date\<close>\<close>

text \<open>
  An \<^verbatim>\<open>arrow.Arrow\<close> timestamp, by its calendar and clock fields.  Arrow only builds
  objects whose fields form a real date (\<open>valid_arrow\<close>).
\<close>

record arrow =
  year :: nat
  month :: nat
  day :: nat
  hour :: nat
  minute :: nat
  second :: nat
  microsecond :: nat

definition is_leap :: "nat \<Rightarrow> bool" where
  "is_leap y \<longleftrightarrow> y mod 4 = 0 \<and> (y mod 100 \<noteq> 0 \<or> y mod 400 = 0)"

definition days_in_month :: "nat \<Rightarrow> nat \<Rightarrow> nat" where
  "days_in_month y m =
     (if m = 2 then (if is_leap y then 29 else 28)
      else if m = 4 \<or> m = 6 \<or> m = 9 \<or> m = 11 then 30 else 31)"

definition valid_arrow :: "arrow \<Rightarrow> bool" where
  "valid_arrow t \<longleftrightarrow>
     1 \<le> year t \<and> year t \<le> 9999 \<and> 1 \<le> month t \<and> month t \<le> 12 \<and>
     1 \<le> day t \<and> day t \<le> days_in_month (year t) (month t) \<and>
     hour t < 24 \<and> minute t < 60 \<and> second t < 60 \<and> microsecond t < 1000000"

text \<open>\<^verbatim>\<open>dt.timetuple().tm_yday\<close>: the day of the year, counted from 1.\<close>

definition days_before_month :: "nat \<Rightarrow> nat \<Rightarrow> nat" where
  "days_before_month y m = (\<Sum>k \<leftarrow> [1..<m]. days_in_month y k)"

definition tm_yday :: "arrow \<Rightarrow> nat" where
  "tm_yday t = days_before_month (year t) (month t) + day t"

text \<open>\<^verbatim>\<open>str(n)\<close> of a non-negative integer, and \<^verbatim>\<open>'{:04d}'.format(n)\<close>.\<close>

definition digit_char :: "nat \<Rightarrow> char" where
  "digit_char d = ''0123456789'' ! d"

function str_nat :: "nat \<Rightarrow> string" where
  "str_nat n = (if n < 10 then [digit_char n] else str_nat (n div 10) @ [digit_char (n mod 10)])"
  by pat_completeness auto
termination
  by (relation "measure id") auto

declare str_nat.simps [simp del]

definition format_04d :: "nat \<Rightarrow> string" where
  "format_04d n = replicate (4 - length (str_nat n)) CHR ''0'' @ str_nat n"

text \<open>
  \<^verbatim>\<open>Arrow.format\<close> cuts its format string into tokens, longest match first, and
  replaces each one.  \<^verbatim>\<open>"YYYYMDDD"\<close> is cut into \<^verbatim>\<open>YYYY\<close> (the year, four digits),
  \<^verbatim>\<open>M\<close> (the month number, not padded) and \<^verbatim>\<open>DDD\<close> (the day of the year, not
  padded).
\<close>

datatype token = YYYY | M | DDD

fun format_token :: "arrow \<Rightarrow> token \<Rightarrow> string" where
  "format_token dt YYYY = format_04d (year dt)"
| "format_token dt M = str_nat (month dt)"
| "format_token dt DDD = str_nat (tm_yday dt)"

definition format_YYYYMDDD :: "arrow \<Rightarrow> string" where
  "format_YYYYMDDD dt = concat (map (format_token dt) [YYYY, M, DDD])"

text \<open>
  The event class (\<^verbatim>\<open>linehaul.events.parser.Download\<close>) is defined in another module;
  an item is any value with a \<^verbatim>\<open>timestamp\<close> attribute, the parameter \<open>ts\<close>.
\<close>

definition extract_item_date :: "('a \<Rightarrow> arrow) \<Rightarrow> 'a \<Rightarrow> string" where
  "extract_item_date ts item = format_YYYYMDDD (ts item)"

subsection \<open>\<^verbatim>\<open>compute_batches\<close>\<close>

text \<open>
  \<^verbatim>\<open>sorted(xs, key=f)\<close> is a stable sort by \<open>f\<close>; strings compare lexicographically by
  code point.  \<^verbatim>\<open>itertools.groupby(xs, f)\<close> cuts \<open>xs\<close> into maximal runs of consecutive
  elements with equal keys.
\<close>

definition py_sorted :: "('a \<Rightarrow> 'k::linorder) \<Rightarrow> 'a list \<Rightarrow> 'a list" where
  "py_sorted f xs = sort_key f xs"

function groupby :: "('a \<Rightarrow> 'k) \<Rightarrow> 'a list \<Rightarrow> ('k \<times> 'a list) list" where
  "groupby f [] = []"
| "groupby f (x # xs) =
     (f x, x # takeWhile (\<lambda>y. f y = f x) xs) # groupby f (dropWhile (\<lambda>y. f y = f x) xs)"
  by pat_completeness auto
termination
  by (relation "measure (\<lambda>(f, xs). length xs)") (auto simp: length_dropWhile_le less_Suc_eq_le)

text \<open>
  A row sent to BigQuery.  \<^verbatim>\<open>str(uuid.uuid4())\<close> draws from the process's random
  source: \<open>uuid4 n\<close> is the value of the \<open>n\<close>-th draw, and the number of draws made so
  far is threaded through.  \<^verbatim>\<open>_cattr.unstructure\<close> maps the parameter \<open>un\<close> over the
  list of items.
\<close>

record ('u, 'r) row =
  insertId :: 'u
  json :: 'r

fun with_ids :: "(nat \<Rightarrow> 'u) \<Rightarrow> nat \<Rightarrow> 'r list \<Rightarrow> ('u, 'r) row list" where
  "with_ids uuid4 n [] = []"
| "with_ids uuid4 n (r # rs) = \<lparr>insertId = uuid4 n, json = r\<rparr> # with_ids uuid4 (Suc n) rs"

text \<open>
  The body of the generator's loop, over the groups.  The result is the list of pairs
  yielded, the exception that ended the generator if one did (\<^verbatim>\<open>items[0]\<close> raises
  \<^verbatim>\<open>IndexError\<close> on an empty list), and the number of draws made.
\<close>

fun yield_batches ::
  "('a \<Rightarrow> arrow) \<Rightarrow> ('a \<Rightarrow> 'r) \<Rightarrow> (nat \<Rightarrow> 'u) \<Rightarrow> nat \<Rightarrow> (string \<times> 'a list) list \<Rightarrow>
     (string \<times> ('u, 'r) row list) list \<times> exn option \<times> nat" where
  "yield_batches ts un uuid4 n [] = ([], None, n)"
| "yield_batches ts un uuid4 n ((date, items) # groups) =
     (case items of
        [] \<Rightarrow> ([], Some IndexError, n)
      | item0 # _ \<Rightarrow>
          (case yield_batches ts un uuid4 (n + length items) groups of
             (rest, err, n') \<Rightarrow>
               ((extract_item_date ts item0, with_ids uuid4 n (map un items)) # rest, err, n')))"

definition compute_batches ::
  "('a \<Rightarrow> arrow) \<Rightarrow> ('a \<Rightarrow> 'r) \<Rightarrow> (nat \<Rightarrow> 'u) \<Rightarrow> nat \<Rightarrow> 'a list \<Rightarrow>
     (string \<times> ('u, 'r) row list) list \<times> exn option \<times> nat" where
  "compute_batches ts un uuid4 n all_items =
     yield_batches ts un uuid4 n
       (groupby (extract_item_date ts) (py_sorted (extract_item_date ts) all_items))"

section \<open>I/O functions\<close>

subsection \<open>\<^verbatim>\<open>actually_send_batch\<close>\<close>

text \<open>
  Time is measured in seconds.  One call of \<^verbatim>\<open>bq.insert_all\<close> returns after some time,
  raises after some time, or never completes; the sink \<open>bq\<close> gives this reply for the
  \<open>k\<close>-th call and its arguments \<^verbatim>\<open>(table, batch, template_suffix)\<close>.
\<close>

datatype reply = Returns rat | Raises rat exn | Hangs

text \<open>
  \<^verbatim>\<open>with trio.fail_after(seconds): await call\<close>.  A negative number of seconds is refused
  with \<^verbatim>\<open>ValueError\<close> before the call is made.  A call that has not completed when the
  deadline expires is cancelled and \<^verbatim>\<open>TooSlowError\<close> is raised.
\<close>

definition fail_after :: "rat \<Rightarrow> reply \<Rightarrow> exn + unit" where
  "fail_after seconds call =
     (if seconds < 0 then Inl ValueError
      else case call of
             Returns d \<Rightarrow> if d < seconds then Inr () else Inl TooSlowError
           | Raises d e \<Rightarrow> if d < seconds then Inl e else Inl TooSlowError
           | Hangs \<Rightarrow> Inl TooSlowError)"

text \<open>The undecorated body of \<^verbatim>\<open>actually_send_batch\<close>, at its \<open>k\<close>-th invocation.\<close>

definition send_once ::
  "(nat \<Rightarrow> 't \<times> 'b \<times> string \<Rightarrow> reply) \<Rightarrow> nat \<Rightarrow> 't \<Rightarrow> string \<Rightarrow> 'b \<Rightarrow> rat option \<Rightarrow> exn + unit" where
  "send_once bq k table template_suffix batch api_timeout =
     (let api_timeout = (case api_timeout of None \<Rightarrow> 15 | Some t \<Rightarrow> t)
      in fail_after api_timeout (bq k (table, batch, template_suffix)))"

text \<open>
  The \<^verbatim>\<open>tenacity\<close> policy of the decorator.
  \<^verbatim>\<open>retry_if_exception_type(trio.TooSlowError)\<close> is \<open>is_TooSlowError\<close>.
  \<^verbatim>\<open>stop_after_attempt(15)\<close> stops once the attempt number has reached 15.
  \<^verbatim>\<open>wait_random_exponential(multiplier=1, max=60)\<close> is \<^verbatim>\<open>random.uniform(0, high)\<close>
  with \<^verbatim>\<open>high = min(max, multiplier * 2 ** attempt_number)\<close>; \<open>r\<close> is the value of
  \<^verbatim>\<open>random.random()\<close> that the call draws.
\<close>

definition stop_after_attempt :: "nat \<Rightarrow> nat \<Rightarrow> bool" where
  "stop_after_attempt max_attempt_number attempt_number \<longleftrightarrow> max_attempt_number \<le> attempt_number"

definition uniform :: "rat \<Rightarrow> rat \<Rightarrow> rat \<Rightarrow> rat" where
  "uniform a b r = a + (b - a) * r"

definition wait_random_exponential :: "rat \<Rightarrow> rat \<Rightarrow> rat \<Rightarrow> nat \<Rightarrow> rat" where
  "wait_random_exponential multiplier max_wait r attempt_number =
     uniform 0 (max 0 (min (multiplier * 2 ^ attempt_number) max_wait)) r"

text \<open>
  What a run of the decorated function does, in order: the attempts, each with the
  arguments handed to the sink, and the sleeps between them.
\<close>

datatype ('t, 'b) event = Attempt nat 't 'b string | Sleep rat

text \<open>
  The retry loop, from attempt \<open>k\<close> on.  With \<^verbatim>\<open>reraise=True\<close> the last exception is
  raised when the policy stops.
\<close>

function retry_from ::
  "(nat \<Rightarrow> rat) \<Rightarrow> (nat \<Rightarrow> 't \<times> 'b \<times> string \<Rightarrow> reply) \<Rightarrow> 't \<Rightarrow> string \<Rightarrow> 'b \<Rightarrow> rat option \<Rightarrow>
     nat \<Rightarrow> (exn + unit) \<times> ('t, 'b) event list" where
  "retry_from rnd bq table template_suffix batch api_timeout k =
     (case send_once bq k table template_suffix batch api_timeout of
        Inr v \<Rightarrow> (Inr v, [Attempt k table batch template_suffix])
      | Inl e \<Rightarrow>
          if \<not> is_TooSlowError e then (Inl e, [Attempt k table batch template_suffix])
          else if stop_after_attempt 15 k then (Inl e, [Attempt k table batch template_suffix])
          else
            (case retry_from rnd bq table template_suffix batch api_timeout (Suc k) of
               (res, trace) \<Rightarrow>
                 (res, Attempt k table batch template_suffix
                       # Sleep (wait_random_exponential 1 60 (rnd k) k) # trace)))"
  by pat_completeness auto
termination
  by (relation "measure (\<lambda>(rnd, bq, table, template_suffix, batch, api_timeout, k). 15 - k)")
    (auto simp: stop_after_attempt_def)

declare retry_from.simps [simp del]

definition actually_send_batch ::
  "(nat \<Rightarrow> rat) \<Rightarrow> (nat \<Rightarrow> 't \<times> 'b \<times> string \<Rightarrow> reply) \<Rightarrow> 't \<Rightarrow> string \<Rightarrow> 'b \<Rightarrow> rat option \<Rightarrow>
     (exn + unit) \<times> ('t, 'b) event list" where
  "actually_send_batch rnd bq table template_suffix batch api_timeout =
     retry_from rnd bq table template_suffix batch api_timeout 1"

subsection \<open>\<^verbatim>\<open>send_batch\<close>\<close>

text \<open>\<^verbatim>\<open>except Exception: pass\<close> catches the instances of \<^verbatim>\<open>Exception\<close> and no other.\<close>

definition send_batch ::
  "(nat \<Rightarrow> rat) \<Rightarrow> (nat \<Rightarrow> 't \<times> 'b \<times> string \<Rightarrow> reply) \<Rightarrow> 't \<Rightarrow> string \<Rightarrow> 'b \<Rightarrow> rat option \<Rightarrow>
     (exn + unit) \<times> ('t, 'b) event list" where
  "send_batch rnd bq table template_suffix batch api_timeout =
     (case actually_send_batch rnd bq table template_suffix batch api_timeout of
        (Inr v, trace) \<Rightarrow> (Inr (), trace)
      | (Inl e, trace) \<Rightarrow> (if is_Exception e then Inr () else Inl e, trace))"

subsection \<open>\<^verbatim>\<open>sender\<close>\<close>

text \<open>
  The queue as the sender sees it: the items still to come, in FIFO order, each with the
  time from which \<^verbatim>\<open>q.get()\<close> can return it.  \<open>collect\<close> is the inner \<^verbatim>\<open>while\<close> loop
  under \<^verbatim>\<open>trio.move_on_after\<close>, at clock \<open>now\<close>.  \<^verbatim>\<open>await q.get()\<close> first checks whether
  its scope has been cancelled, then returns the next item if one is queued, and waits
  for it otherwise.  An expired deadline cancels the scope when the task next yields to
  the scheduler, which every \<^verbatim>\<open>q.get()\<close> does: the first call in the block (\<open>fresh\<close>)
  still returns an item that is queued, even when the deadline is the present moment (a
  timeout of 0), and a later call is refused once the deadline is reached.  A call that
  waits is cancelled at the deadline unless its item arrives before.  Cancellation leaves
  the \<^verbatim>\<open>with\<close> block.  The result is the batch, the time at which the block is left and
  the rest of the queue.
\<close>

fun collect ::
  "int \<Rightarrow> rat \<Rightarrow> bool \<Rightarrow> rat \<Rightarrow> (rat \<times> 'a) list \<Rightarrow> 'a list \<Rightarrow>
     'a list \<times> rat \<times> (rat \<times> 'a) list" where
  "collect batch_size deadline fresh now [] batch =
     (if int (length batch) < batch_size then (batch, max now deadline, [])
      else (batch, now, []))"
| "collect batch_size deadline fresh now ((t, item) # rest) batch =
     (if int (length batch) < batch_size then
        (if t \<le> now then
           (if fresh \<or> now < deadline
            then collect batch_size deadline False now rest (batch @ [item])
            else (batch, now, (t, item) # rest))
         else
           (if t < deadline
            then collect batch_size deadline False t rest (batch @ [item])
            else (batch, max now deadline, (t, item) # rest)))
      else (batch, now, (t, item) # rest))"

text \<open>
  The state of the sender between two cycles: the clock, the number of UUID draws made and
  the queue.  A task started in the nursery is the argument tuple of \<^verbatim>\<open>send_batch\<close>.
\<close>

type_synonym 'a sender_state = "rat \<times> nat \<times> (rat \<times> 'a) list"
type_synonym ('t, 'u, 'r) task = "'t \<times> string \<times> ('u, 'r) row list \<times> rat option"

text \<open>
  One pass through the body of \<^verbatim>\<open>while True\<close>.  \<^verbatim>\<open>trio.move_on_after\<close> refuses a
  negative timeout with \<^verbatim>\<open>ValueError\<close>.  \<^verbatim>\<open>nursery.start_soon\<close> does not wait.
\<close>

definition sender_cycle ::
  "('a \<Rightarrow> arrow) \<Rightarrow> ('a \<Rightarrow> 'r) \<Rightarrow> (nat \<Rightarrow> 'u) \<Rightarrow> 't \<Rightarrow> int \<Rightarrow> rat \<Rightarrow> rat option \<Rightarrow>
     'a sender_state \<Rightarrow> ('t, 'u, 'r) task list \<times> exn option \<times> 'a sender_state" where
  "sender_cycle ts un uuid4 table batch_size batch_timeout api_timeout st =
     (case st of (now, n, q) \<Rightarrow>
        if batch_timeout < 0 then ([], Some ValueError, (now, n, q))
        else
          (case collect batch_size (now + batch_timeout) True now q [] of
             (batch, now', q') \<Rightarrow>
               (case compute_batches ts un uuid4 n batch of
                  (batches, err, n') \<Rightarrow>
                    (map (\<lambda>(template_suffix, batch). (table, template_suffix, batch, api_timeout))
                       batches,
                     err, (now', n', q')))))"

text \<open>
  The loop never ends by itself; \<open>sender_loop c\<close> is its first \<open>c\<close> cycles (fewer if an
  exception ends the task), with the tasks started in each.
\<close>

fun sender_loop ::
  "nat \<Rightarrow> ('a \<Rightarrow> arrow) \<Rightarrow> ('a \<Rightarrow> 'r) \<Rightarrow> (nat \<Rightarrow> 'u) \<Rightarrow> 't \<Rightarrow> int \<Rightarrow> rat \<Rightarrow> rat option \<Rightarrow>
     'a sender_state \<Rightarrow> ('t, 'u, 'r) task list list \<times> exn option \<times> 'a sender_state" where
  "sender_loop 0 ts un uuid4 table batch_size batch_timeout api_timeout st = ([], None, st)"
| "sender_loop (Suc c) ts un uuid4 table batch_size batch_timeout api_timeout st =
     (case sender_cycle ts un uuid4 table batch_size batch_timeout api_timeout st of
        (tasks, Some e, st') \<Rightarrow> ([tasks], Some e, st')
      | (tasks, None, st') \<Rightarrow>
          (case sender_loop c ts un uuid4 table batch_size batch_timeout api_timeout st' of
             (started, err, st'') \<Rightarrow> (tasks # started, err, st'')))"

definition sender ::
  "nat \<Rightarrow> ('a \<Rightarrow> arrow) \<Rightarrow> ('a \<Rightarrow> 'r) \<Rightarrow> (nat \<Rightarrow> 'u) \<Rightarrow> 't \<Rightarrow> int option \<Rightarrow> rat option \<Rightarrow> rat option \<Rightarrow>
     'a sender_state \<Rightarrow> ('t, 'u, 'r) task list list \<times> exn option \<times> 'a sender_state" where
  "sender c ts un uuid4 table batch_size batch_timeout api_timeout st =
     (let batch_size = (case batch_size of None \<Rightarrow> 3 | Some b \<Rightarrow> b);
          batch_timeout = (case batch_timeout of None \<Rightarrow> 30 | Some t \<Rightarrow> t)
      in sender_loop c ts un uuid4 table batch_size batch_timeout api_timeout st)"

text \<open>A timestamp on the hour, for the examples below.\<close>

definition Arrow :: "nat \<Rightarrow> nat \<Rightarrow> nat \<Rightarrow> nat \<Rightarrow> arrow" where
  "Arrow y m d h =
     \<lparr>year = y, month = m, day = d, hour = h, minute = 0, second = 0, microsecond = 0\<rparr>"

section \<open>Properties\<close>

subsection \<open>Decoding a line\<close>

text \<open>
  C1.  The claim: for every byte string and any token configuration, \<open>parse_line\<close> returns
  an event or nothing and never raises.  The call \<^verbatim>\<open>line.decode("utf8")\<close> stands before
  the \<^verbatim>\<open>try\<close> block, so on the single byte \<^verbatim>\<open>0xFF\<close>, which is not valid UTF-8, the
  function raises \<^verbatim>\<open>UnicodeDecodeError\<close>, whatever the token and the parsers are, and
  before either parser is called.
\<close>

theorem parse_line_invalid_utf8_raises:
  "parse_line sp msgf ep [0xFF] token = (Inl UnicodeDecodeError, [])"
  by (simp add: parse_line_def bytes_decode_def)

text \<open>
  On a line that is valid UTF-8 the function does return, an event or nothing, when the
  two parsers signal their failures with \<^verbatim>\<open>ValueError\<close>.
\<close>

lemma parse_line_returns_on_text:
  assumes "bytes_decode line = Inr s"
    and "\<And>x e. sp x = Inl e \<Longrightarrow> is_ValueError e"
    and "\<And>x e. ep x = Inl e \<Longrightarrow> is_ValueError e"
  shows "\<exists>r. fst (parse_line sp msgf ep line token) = Inr r"
proof -
  have tail: "\<exists>r. fst (case sp x of
                  Inl e \<Rightarrow> (if is_ValueError e then Inr None else Inl e, [SyslogParse x])
                | Inr msg \<Rightarrow>
                    (case ep (msgf msg) of
                       Inl e \<Rightarrow> (if is_ValueError e then Inr None else Inl e,
                                 [SyslogParse x, EventParse (msgf msg)])
                     | Inr event \<Rightarrow> (Inr (Some event),
                                 [SyslogParse x, EventParse (msgf msg)]))) = Inr r" for x
  proof (cases "sp x")
    case (Inl e)
    then show ?thesis using assms(2) [OF Inl] by simp
  next
    case (Inr msg)
    show ?thesis
    proof (cases "ep (msgf msg)")
      case (Inl e)
      then show ?thesis using Inr assms(3) [OF Inl] by simp
    next
      case (Inr event)
      then show ?thesis using \<open>sp x = Inr msg\<close> by simp
    qed
  qed
  show ?thesis
  proof (cases token)
    case None
    then show ?thesis using assms(1) tail [of s] by (simp add: parse_line_def)
  next
    case (Some t)
    then show ?thesis using assms(1) tail [of "drop (length t) s"] by (simp add: parse_line_def)
  qed
qed

subsection \<open>Grouping: auxiliary facts\<close>

lemma groupby_snd_nonempty: "(k, g) \<in> set (groupby f xs) \<Longrightarrow> g \<noteq> []"
  by (induction f xs rule: groupby.induct) auto

lemma groupby_key_hd: "(k, g) \<in> set (groupby f xs) \<Longrightarrow> k = f (hd g)"
  by (induction f xs rule: groupby.induct) auto

lemma concat_groupby: "concat (map snd (groupby f xs)) = xs"
  by (induction f xs rule: groupby.induct) auto

lemma set_fst_groupby: "fst ` set (groupby f xs) = f ` set xs"
proof (induction f xs rule: groupby.induct)
  case (1 f)
  show ?case by simp
next
  case (2 f x xs)
  let ?t = "takeWhile (\<lambda>y. f y = f x) xs" and ?d = "dropWhile (\<lambda>y. f y = f x) xs"
  have "set xs = set ?t \<union> set ?d"
    by (metis set_append takeWhile_dropWhile_id)
  then have a: "f ` set xs = f ` set ?t \<union> f ` set ?d"
    by (simp add: image_Un)
  have b: "f ` set ?t \<subseteq> {f x}"
    using set_takeWhileD [of _ "\<lambda>y. f y = f x" xs] by blast
  have c: "fst ` set (groupby f (x # xs)) = insert (f x) (f ` set ?d)"
    using 2 by simp
  show ?case unfolding c using a b by auto
qed

lemma sorted_dropWhile_greater:
  fixes f :: "'a \<Rightarrow> 'k::linorder"
  assumes "sorted (map f (x # xs))" and "y \<in> set (dropWhile (\<lambda>y. f y = f x) xs)"
  shows "f x < f y"
proof -
  let ?d = "dropWhile (\<lambda>y. f y = f x) xs"
  obtain z zs where d: "?d = z # zs"
    using assms(2) by (cases ?d) (simp_all del: dropWhile_eq_Nil_conv)
  have ne: "?d \<noteq> []" unfolding d by simp
  have nz: "f z \<noteq> f x" using hd_dropWhile [OF ne] unfolding d by simp
  have "z \<in> set ?d" unfolding d by simp
  then have zin: "z \<in> set xs" by (rule set_dropWhileD)
  have all: "\<forall>w \<in> set xs. f x \<le> f w" using assms(1) by simp
  with zin nz have lt: "f x < f z" by force
  have "sorted (map f xs)" using assms(1) by simp
  then have "sorted_wrt (\<lambda>a b. f a \<le> f b) xs" by (simp add: sorted_map)
  then have "sorted_wrt (\<lambda>a b. f a \<le> f b) ?d" by (rule sorted_wrt_dropWhile)
  then have "\<forall>w \<in> set zs. f z \<le> f w" unfolding d by simp
  moreover have "y = z \<or> y \<in> set zs" using assms(2) unfolding d by simp
  ultimately show ?thesis using lt by auto
qed

lemma sorted_map_dropWhile:
  fixes f :: "'a \<Rightarrow> 'k::linorder"
  shows "sorted (map f (x # xs)) \<Longrightarrow> sorted (map f (dropWhile P xs))"
proof -
  assume "sorted (map f (x # xs))"
  then have "sorted_wrt (\<lambda>a b. f a \<le> f b) xs" by (simp add: sorted_map)
  then have "sorted_wrt (\<lambda>a b. f a \<le> f b) (dropWhile P xs)" by (rule sorted_wrt_dropWhile)
  then show ?thesis by (simp add: sorted_map)
qed

lemma groupby_keys_strict:
  fixes f :: "'a \<Rightarrow> 'k::linorder"
  shows "sorted (map f xs) \<Longrightarrow> sorted_wrt (<) (map fst (groupby f xs))"
proof (induction f xs rule: groupby.induct)
  case (1 f)
  show ?case by simp
next
  case (2 f x xs)
  let ?d = "dropWhile (\<lambda>y. f y = f x) xs"
  have sd: "sorted (map f ?d)" using "2.prems" by (rule sorted_map_dropWhile)
  have ih: "sorted_wrt (<) (map fst (groupby f ?d))" using "2.IH" sd by blast
  have "\<forall>k \<in> f ` set ?d. f x < k"
    using sorted_dropWhile_greater [OF "2.prems"] by blast
  then have "\<forall>k \<in> fst ` set (groupby f ?d). f x < k"
    unfolding set_fst_groupby .
  then have "\<forall>k \<in> set (map fst (groupby f ?d)). f x < k" by simp
  with ih show ?case by simp
qed

lemma filter_takeWhile_dropWhile:
  "filter Q xs = filter Q (takeWhile P xs) @ filter Q (dropWhile P xs)"
proof -
  have "filter Q (takeWhile P xs @ dropWhile P xs) = filter Q (takeWhile P xs) @ filter Q (dropWhile P xs)"
    by (rule filter_append)
  then show ?thesis by simp
qed

lemma filter_none: "(\<And>y. y \<in> set ys \<Longrightarrow> \<not> Q y) \<Longrightarrow> filter Q ys = []"
  by (simp add: filter_empty_conv)

lemma filter_all: "(\<And>y. y \<in> set ys \<Longrightarrow> Q y) \<Longrightarrow> filter Q ys = ys"
  by (simp add: filter_id_conv)

lemma groupby_sorted_filter:
  fixes f :: "'a \<Rightarrow> 'k::linorder"
  shows "sorted (map f xs) \<Longrightarrow> (k, g) \<in> set (groupby f xs) \<Longrightarrow> g = filter (\<lambda>y. f y = k) xs"
proof (induction f xs rule: groupby.induct)
  case (1 f)
  then show ?case by simp
next
  case (2 f x xs)
  let ?P = "\<lambda>y. f y = f x"
  let ?t = "takeWhile ?P xs" and ?d = "dropWhile ?P xs"
  have sd: "sorted (map f ?d)" using "2.prems"(1) by (rule sorted_map_dropWhile)
  have gt: "\<And>y. y \<in> set ?d \<Longrightarrow> f x < f y"
    using sorted_dropWhile_greater [OF "2.prems"(1)] by blast
  have tk: "\<And>y. y \<in> set ?t \<Longrightarrow> f y = f x"
    using set_takeWhileD [of _ ?P xs] by blast
  have "(k, g) \<in> set ((f x, x # ?t) # groupby f ?d)"
    using "2.prems"(2) by (simp only: groupby.simps)
  then consider "k = f x" "g = x # ?t" | "(k, g) \<in> set (groupby f ?d)"
    by (simp only: set_simps insert_iff prod.inject) blast
  then show ?case
  proof cases
    case 1
    have a: "filter ?P ?d = []"
    proof (rule filter_none [of ?d ?P])
      fix y assume "y \<in> set ?d"
      then have "f x < f y" by (rule gt)
      then have "f x \<noteq> f y" by (rule order.strict_implies_not_eq)
      then show "\<not> f y = f x" by (rule not_sym)
    qed
    have b: "filter ?P ?t = ?t"
    proof (rule filter_all [of ?t ?P])
      fix y assume "y \<in> set ?t"
      then show "f y = f x" by (rule tk)
    qed
    have "filter ?P xs = filter ?P ?t @ filter ?P ?d" by (rule filter_takeWhile_dropWhile)
    also have "\<dots> = ?t" by (simp only: a b append_Nil2)
    finally have c: "filter ?P xs = ?t" .
    have "filter ?P (x # xs) = x # filter ?P xs" by (simp only: filter.simps refl if_True)
    then have "filter ?P (x # xs) = x # ?t" by (simp only: c)
    then show ?thesis by (simp only: 1)
  next
    case 2
    then have g: "g = filter (\<lambda>y. f y = k) ?d" using "2.IH" sd by blast
    have "fst (k, g) \<in> fst ` set (groupby f ?d)" using 2 by (rule imageI)
    then have "k \<in> f ` set ?d" by (simp only: set_fst_groupby fst_conv)
    then have kx: "f x < k" using gt by blast
    then have xk: "f x \<noteq> k" by (rule order.strict_implies_not_eq)
    have a: "filter (\<lambda>y. f y = k) ?t = []"
    proof (rule filter_none [of ?t "\<lambda>y. f y = k"])
      fix y assume "y \<in> set ?t"
      then have "f y = f x" by (rule tk)
      then show "\<not> f y = k" by (simp only: xk not_False_eq_True)
    qed
    have "filter (\<lambda>y. f y = k) xs = filter (\<lambda>y. f y = k) ?t @ filter (\<lambda>y. f y = k) ?d"
      by (rule filter_takeWhile_dropWhile)
    also have "\<dots> = g" by (simp only: a g append_Nil)
    finally have c: "filter (\<lambda>y. f y = k) xs = g" .
    from xk have "filter (\<lambda>y. f y = k) (x # xs) = filter (\<lambda>y. f y = k) xs"
      by (simp only: filter.simps if_False)
    then show ?thesis by (simp only: c)
  qed
qed

lemma json_with_ids: "map json (with_ids u n rs) = rs"
  by (induction rs arbitrary: n) simp_all

lemma length_with_ids: "length (with_ids u n rs) = length rs"
  by (induction rs arbitrary: n) simp_all

lemma insertId_with_ids: "map insertId (with_ids u n rs) = map u [n..<n + length rs]"
proof (induction rs arbitrary: n)
  case Nil
  show ?case by simp
next
  case (Cons r rs)
  have "[n..<n + length (r # rs)] = n # [Suc n..<Suc n + length rs]"
    by (subst upt_rec) simp
  then show ?case using Cons [of "Suc n"] by simp
qed

lemma yield_batches_Cons:
  "yield_batches ts un u n ((k, i # is) # gs) =
     ((extract_item_date ts i, with_ids u n (map un (i # is))) # fst (yield_batches ts un u (n + length (i # is)) gs),
      fst (snd (yield_batches ts un u (n + length (i # is)) gs)),
      snd (snd (yield_batches ts un u (n + length (i # is)) gs)))"
  by (simp add: case_prod_unfold)

lemma yield_batches_err:
  "\<forall>kg \<in> set gs. snd kg \<noteq> [] \<Longrightarrow> fst (snd (yield_batches ts un u n gs)) = None"
proof (induction gs arbitrary: n)
  case Nil
  show ?case by simp
next
  case (Cons kg gs)
  obtain k g where kg: "kg = (k, g)" by (cases kg)
  have "g \<noteq> []" using Cons.prems kg by simp
  then obtain i "is" where g: "g = i # is" by (cases g) auto
  have "\<forall>kg \<in> set gs. snd kg \<noteq> []" using Cons.prems by simp
  then have "fst (snd (yield_batches ts un u (n + length (i # is)) gs)) = None" by (rule Cons.IH)
  then show ?case unfolding kg g yield_batches_Cons by simp
qed

lemma yield_batches_count:
  "\<forall>kg \<in> set gs. snd kg \<noteq> [] \<Longrightarrow>
     snd (snd (yield_batches ts un u n gs)) = n + length (concat (map snd gs))"
proof (induction gs arbitrary: n)
  case Nil
  show ?case by simp
next
  case (Cons kg gs)
  obtain k g where kg: "kg = (k, g)" by (cases kg)
  have "g \<noteq> []" using Cons.prems kg by simp
  then obtain i "is" where g: "g = i # is" by (cases g) auto
  have "\<forall>kg \<in> set gs. snd kg \<noteq> []" using Cons.prems by simp
  then have "snd (snd (yield_batches ts un u (n + length (i # is)) gs)) =
      n + length (i # is) + length (concat (map snd gs))" by (rule Cons.IH)
  then show ?case unfolding kg g yield_batches_Cons by simp
qed

lemma yield_batches_keys:
  "\<forall>kg \<in> set gs. snd kg \<noteq> [] \<Longrightarrow>
     map fst (fst (yield_batches ts un u n gs)) =
       map (\<lambda>kg. extract_item_date ts (hd (snd kg))) gs"
proof (induction gs arbitrary: n)
  case Nil
  show ?case by simp
next
  case (Cons kg gs)
  obtain k g where kg: "kg = (k, g)" by (cases kg)
  have "g \<noteq> []" using Cons.prems kg by simp
  then obtain i "is" where g: "g = i # is" by (cases g) auto
  have "\<forall>kg \<in> set gs. snd kg \<noteq> []" using Cons.prems by simp
  then have "map fst (fst (yield_batches ts un u (n + length (i # is)) gs)) =
       map (\<lambda>kg. extract_item_date ts (hd (snd kg))) gs" by (rule Cons.IH)
  then show ?case unfolding kg g yield_batches_Cons by simp
qed

lemma yield_batches_json:
  "\<forall>kg \<in> set gs. snd kg \<noteq> [] \<Longrightarrow>
     map (\<lambda>b. map json (snd b)) (fst (yield_batches ts un u n gs)) =
       map (\<lambda>kg. map un (snd kg)) gs"
proof (induction gs arbitrary: n)
  case Nil
  show ?case by simp
next
  case (Cons kg gs)
  obtain k g where kg: "kg = (k, g)" by (cases kg)
  have "g \<noteq> []" using Cons.prems kg by simp
  then obtain i "is" where g: "g = i # is" by (cases g) auto
  have "\<forall>kg \<in> set gs. snd kg \<noteq> []" using Cons.prems by simp
  then have "map (\<lambda>b. map json (snd b)) (fst (yield_batches ts un u (n + length (i # is)) gs)) =
       map (\<lambda>kg. map un (snd kg)) gs" by (rule Cons.IH)
  then show ?case unfolding kg g yield_batches_Cons by (simp add: json_with_ids)
qed

lemma yield_batches_ids:
  "\<forall>kg \<in> set gs. snd kg \<noteq> [] \<Longrightarrow>
     concat (map (\<lambda>b. map insertId (snd b)) (fst (yield_batches ts un u n gs))) =
       map u [n..<n + length (concat (map snd gs))]"
proof (induction gs arbitrary: n)
  case Nil
  show ?case by simp
next
  case (Cons kg gs)
  obtain k g where kg: "kg = (k, g)" by (cases kg)
  have "g \<noteq> []" using Cons.prems kg by simp
  then obtain i "is" where g: "g = i # is" by (cases g) auto
  let ?m = "length (concat (map snd gs))"
  have "\<forall>kg \<in> set gs. snd kg \<noteq> []" using Cons.prems by simp
  then have ih: "concat (map (\<lambda>b. map insertId (snd b)) (fst (yield_batches ts un u (n + length (i # is)) gs))) =
       map u [n + length (i # is)..<n + length (i # is) + ?m]" by (rule Cons.IH)
  have hd: "map insertId (with_ids u n (map un (i # is))) = map u [n..<n + length (i # is)]"
    using insertId_with_ids [of u n "map un (i # is)"] by simp
  have "[n..<n + length (i # is) + ?m] = [n..<n + length (i # is)] @ [n + length (i # is)..<n + length (i # is) + ?m]"
    by (rule upt_add_eq_append) simp
  then have "map u [n..<n + length (concat (map snd ((k, i # is) # gs)))] =
      map u [n..<n + length (i # is)] @ map u [n + length (i # is)..<n + length (i # is) + ?m]"
    by (simp add: add.assoc)
  then show ?case unfolding kg g yield_batches_Cons using ih hd by simp
qed

lemma yield_batches_view:
  "\<forall>kg \<in> set gs. snd kg \<noteq> [] \<and> fst kg = extract_item_date ts (hd (snd kg)) \<Longrightarrow>
     map (\<lambda>b. (fst b, map json (snd b))) (fst (yield_batches ts un u n gs)) =
       map (\<lambda>kg. (fst kg, map un (snd kg))) gs"
proof (induction gs arbitrary: n)
  case Nil
  show ?case by simp
next
  case (Cons kg gs)
  obtain k g where kg: "kg = (k, g)" by (cases kg)
  have "g \<noteq> []" using Cons.prems kg by simp
  then obtain i "is" where g: "g = i # is" by (cases g) auto
  have k: "k = extract_item_date ts i" using Cons.prems kg g by simp
  have "\<forall>kg \<in> set gs. snd kg \<noteq> [] \<and> fst kg = extract_item_date ts (hd (snd kg))"
    using Cons.prems by simp
  then have "map (\<lambda>b. (fst b, map json (snd b))) (fst (yield_batches ts un u (n + length (i # is)) gs)) =
       map (\<lambda>kg. (fst kg, map un (snd kg))) gs" by (rule Cons.IH)
  then show ?case unfolding kg g yield_batches_Cons using k by (simp add: json_with_ids)
qed

lemma groups_wellformed:
  "\<forall>kg \<in> set (groupby f xs). snd kg \<noteq> [] \<and> fst kg = f (hd (snd kg))"
proof
  fix kg assume a: "kg \<in> set (groupby f xs)"
  obtain k g where kg: "kg = (k, g)" by (cases kg)
  show "snd kg \<noteq> [] \<and> fst kg = f (hd (snd kg))"
    using groupby_snd_nonempty [of k g f xs] groupby_key_hd [of k g f xs] a
    unfolding kg by simp
qed

lemma groups_nonempty: "\<forall>kg \<in> set (groupby f xs). snd kg \<noteq> []"
  using groups_wellformed [of f xs] by blast

lemma compute_batches_view:
  "map (\<lambda>b. (fst b, map json (snd b))) (fst (compute_batches ts un u n xs)) =
     map (\<lambda>kg. (fst kg, map un (snd kg)))
       (groupby (extract_item_date ts) (py_sorted (extract_item_date ts) xs))"
  unfolding compute_batches_def by (rule yield_batches_view) (rule groups_wellformed)

lemma compute_batches_err: "fst (snd (compute_batches ts un u n xs)) = None"
  unfolding compute_batches_def by (rule yield_batches_err) (rule groups_nonempty)

lemma length_py_sorted: "length (py_sorted f xs) = length xs"
  by (simp add: py_sorted_def)

lemma compute_batches_count: "snd (snd (compute_batches ts un u n xs)) = n + length xs"
proof -
  let ?K = "extract_item_date ts"
  have "snd (snd (compute_batches ts un u n xs)) =
      n + length (concat (map snd (groupby ?K (py_sorted ?K xs))))"
    unfolding compute_batches_def by (rule yield_batches_count) (rule groups_nonempty)
  then show ?thesis by (simp only: concat_groupby length_py_sorted)
qed

lemma compute_batches_ids:
  "concat (map (\<lambda>b. map insertId (snd b)) (fst (compute_batches ts un u n xs))) =
     map u [n..<n + length xs]"
proof -
  let ?K = "extract_item_date ts"
  have "concat (map (\<lambda>b. map insertId (snd b)) (fst (compute_batches ts un u n xs))) =
      map u [n..<n + length (concat (map snd (groupby ?K (py_sorted ?K xs))))]"
    unfolding compute_batches_def by (rule yield_batches_ids) (rule groups_nonempty)
  then show ?thesis by (simp only: concat_groupby length_py_sorted)
qed

lemma compute_batches_group:
  assumes "(k, rows) \<in> set (fst (compute_batches ts un u n xs))"
  shows "\<exists>g. (k, g) \<in> set (groupby (extract_item_date ts) (py_sorted (extract_item_date ts) xs))
           \<and> map json rows = map un g"
proof -
  let ?G = "groupby (extract_item_date ts) (py_sorted (extract_item_date ts) xs)"
  let ?bs = "fst (compute_batches ts un u n xs)"
  have "(fst (k, rows), map json (snd (k, rows))) \<in> (\<lambda>b. (fst b, map json (snd b))) ` set ?bs"
    using assms by (rule imageI)
  then have "(k, map json rows) \<in> set (map (\<lambda>b. (fst b, map json (snd b))) ?bs)"
    by simp
  then have "(k, map json rows) \<in> set (map (\<lambda>kg. (fst kg, map un (snd kg))) ?G)"
    by (simp only: compute_batches_view)
  then obtain kg where a: "kg \<in> set ?G" and b: "(k, map json rows) = (fst kg, map un (snd kg))"
    by auto
  have "kg = (k, snd kg)" using b by (simp add: prod_eq_iff)
  then have "(k, snd kg) \<in> set ?G" using a by (rule subst)
  moreover have "map json rows = map un (snd kg)" using b by simp
  ultimately show ?thesis by blast
qed

lemma sorted_py_sorted: "sorted (map f (py_sorted f xs))"
  by (simp add: py_sorted_def)

lemma filter_py_sorted: "filter (\<lambda>y. f y = k) (py_sorted f xs) = filter (\<lambda>y. f y = k) xs"
  unfolding py_sorted_def by (rule sort_key_stable)

lemma compute_batches_keys:
  "map fst (fst (compute_batches ts un u n xs)) =
     map fst (groupby (extract_item_date ts) (py_sorted (extract_item_date ts) xs))"
proof -
  let ?G = "groupby (extract_item_date ts) (py_sorted (extract_item_date ts) xs)"
  let ?bs = "fst (compute_batches ts un u n xs)"
  have "map fst (map (\<lambda>b. (fst b, map json (snd b))) ?bs) =
        map fst (map (\<lambda>kg. (fst kg, map un (snd kg))) ?G)"
    by (simp only: compute_batches_view)
  then show ?thesis by (simp add: comp_def)
qed

lemma str_nat_examples:
  "str_nat 3 = ''3''" "str_nat 5 = ''5''" "str_nat 12 = ''12''" "str_nat 64 = ''64''"
  "str_nat 365 = ''365''" "str_nat 2018 = ''2018''"
  by (simp_all add: str_nat.simps digit_char_def)

lemma days_before_examples:
  "days_before_month 2018 3 = 59" "days_before_month 2018 12 = 334"
  by (simp_all add: days_before_month_def days_in_month_def is_leap_def upt_conv_Cons)

lemma key_mar5: "extract_item_date fst (Arrow 2018 3 5 h, x) = ''2018364''"
  by (simp add: extract_item_date_def Arrow_def format_YYYYMDDD_def format_04d_def tm_yday_def
      str_nat_examples days_before_examples)

lemma key_dec31: "extract_item_date fst (Arrow 2018 12 31 h, x) = ''201812365''"
  by (simp add: extract_item_date_def Arrow_def format_YYYYMDDD_def format_04d_def tm_yday_def
      str_nat_examples days_before_examples)

lemma compute_batches_example:
  "compute_batches fst id id 0
       [(Arrow 2018 3 5 8, ''a''), (Arrow 2018 12 31 9, ''b''), (Arrow 2018 3 5 10, ''c'')] =
     ([(''201812365'', [\<lparr>insertId = 0, json = (Arrow 2018 12 31 9, ''b'')\<rparr>]),
       (''2018364'', [\<lparr>insertId = 1, json = (Arrow 2018 3 5 8, ''a'')\<rparr>,
                     \<lparr>insertId = 2, json = (Arrow 2018 3 5 10, ''c'')\<rparr>])],
      None, 3)"
  by (simp add: compute_batches_def py_sorted_def key_mar5 key_dec31)

subsection \<open>Partitioning a batch\<close>

text \<open>
  C8.  Partitioning yields exactly one sub-batch per grouping key that occurs in the batch:
  the keys of the sub-batches are pairwise different and are exactly the keys of the input
  items.  The rows of the sub-batch with key \<open>k\<close> are the items of the batch with key \<open>k\<close>,
  all of them, in the order in which they stand in the batch (their arrival order).
\<close>

theorem compute_batches_one_group_per_key:
  assumes "compute_batches ts un uuid4 n all_items = (batches, err, n')"
  shows "distinct (map fst batches) \<and>
         set (map fst batches) = extract_item_date ts ` set all_items \<and>
         (\<forall>(k, rows) \<in> set batches.
            map json rows = map un (filter (\<lambda>i. extract_item_date ts i = k) all_items))"
proof -
  let ?K = "extract_item_date ts"
  let ?S = "py_sorted ?K all_items"
  let ?G = "groupby ?K ?S"
  have bs: "batches = fst (compute_batches ts un uuid4 n all_items)" using assms by simp
  have keys: "map fst batches = map fst ?G" unfolding bs by (rule compute_batches_keys)
  have "sorted_wrt (<) (map fst ?G)" using sorted_py_sorted by (rule groupby_keys_strict)
  then have d: "distinct (map fst batches)" unfolding keys by (simp add: strict_sorted_iff)
  have "set (map fst ?G) = ?K ` set ?S" using set_fst_groupby [of ?K ?S] by simp
  then have s: "set (map fst batches) = ?K ` set all_items"
    unfolding keys by (simp add: py_sorted_def)
  have r: "map json rows = map un (filter (\<lambda>i. ?K i = k) all_items)"
    if "(k, rows) \<in> set batches" for k rows
  proof -
    from that obtain g where g: "(k, g) \<in> set ?G" and j: "map json rows = map un g"
      unfolding bs using compute_batches_group by blast
    have "g = filter (\<lambda>y. ?K y = k) ?S" using sorted_py_sorted g by (rule groupby_sorted_filter)
    then have "g = filter (\<lambda>y. ?K y = k) all_items" by (simp only: filter_py_sorted)
    with j show ?thesis by simp
  qed
  from d s r show ?thesis by blast
qed

theorem compute_batches_one_group_per_key_witness:
  "compute_batches fst id id 0
       [(Arrow 2018 3 5 8, ''a''), (Arrow 2018 12 31 9, ''b''), (Arrow 2018 3 5 10, ''c'')] =
     ([(''201812365'', [\<lparr>insertId = 0, json = (Arrow 2018 12 31 9, ''b'')\<rparr>]),
        (''2018364'', [\<lparr>insertId = 1, json = (Arrow 2018 3 5 8, ''a'')\<rparr>,
                      \<lparr>insertId = 2, json = (Arrow 2018 3 5 10, ''c'')\<rparr>])],
      None, 3) \<and>
   distinct (map fst
       [(''201812365'', [\<lparr>insertId = 0, json = (Arrow 2018 12 31 9, ''b'')\<rparr>]),
        (''2018364'', [\<lparr>insertId = 1, json = (Arrow 2018 3 5 8, ''a'')\<rparr>,
                      \<lparr>insertId = 2, json = (Arrow 2018 3 5 10, ''c'')\<rparr>])]) \<and>
   length
       [(''201812365'', [\<lparr>insertId = 0, json = (Arrow 2018 12 31 9, ''b'')\<rparr>]),
        (''2018364'', [\<lparr>insertId = 1, json = (Arrow 2018 3 5 8, ''a'')\<rparr>,
                      \<lparr>insertId = 2, json = (Arrow 2018 3 5 10, ''c'')\<rparr>])] = 2"
  using compute_batches_one_group_per_key [OF compute_batches_example]
    compute_batches_example
  by simp

text \<open>
  C10.  For every input list the generator ends without an exception (so \<^verbatim>\<open>items[0]\<close> is
  never taken of an empty group), every sub-batch yielded has at least one row, and the
  rows of all sub-batches together are the unstructured input items, each as often as it
  occurs in the input.
\<close>

theorem compute_batches_partition:
  assumes "compute_batches ts un uuid4 n all_items = (batches, err, n')"
  shows "err = None \<and> (\<forall>(k, rows) \<in> set batches. rows \<noteq> []) \<and>
         mset (concat (map (\<lambda>(k, rows). map json rows) batches)) = mset (map un all_items)"
proof -
  let ?K = "extract_item_date ts"
  let ?S = "py_sorted ?K all_items"
  let ?G = "groupby ?K ?S"
  have bs: "batches = fst (compute_batches ts un uuid4 n all_items)" using assms by simp
  have e: "err = None" using compute_batches_err [of ts un uuid4 n all_items] assms by simp
  have ne: "rows \<noteq> []" if "(k, rows) \<in> set batches" for k rows
  proof -
    from that obtain g where g: "(k, g) \<in> set ?G" and j: "map json rows = map un g"
      unfolding bs using compute_batches_group by blast
    have "g \<noteq> []" using g by (rule groupby_snd_nonempty)
    with j show ?thesis by auto
  qed
  have "map snd (map (\<lambda>b. (fst b, map json (snd b))) batches) =
        map snd (map (\<lambda>kg. (fst kg, map un (snd kg))) ?G)"
    unfolding bs by (simp only: compute_batches_view)
  then have "map (\<lambda>b. map json (snd b)) batches = map (\<lambda>kg. map un (snd kg)) ?G"
    by (simp add: comp_def)
  then have "concat (map (\<lambda>b. map json (snd b)) batches) = concat (map (map un) (map snd ?G))"
    by (simp add: comp_def)
  also have "\<dots> = map un (concat (map snd ?G))" by (simp only: map_concat)
  also have "\<dots> = map un ?S" by (simp only: concat_groupby)
  finally have c: "concat (map (\<lambda>b. map json (snd b)) batches) = map un ?S" .
  have "mset ?S = mset all_items" by (simp add: py_sorted_def)
  then have "mset (map un ?S) = mset (map un all_items)" by simp
  then have m: "mset (concat (map (\<lambda>(k, rows). map json rows) batches)) = mset (map un all_items)"
    using c by (simp add: case_prod_unfold)
  from e ne m show ?thesis by blast
qed

theorem compute_batches_partition_witness:
  "compute_batches fst id id 0
       [(Arrow 2018 3 5 8, ''a''), (Arrow 2018 12 31 9, ''b''), (Arrow 2018 3 5 10, ''c'')] =
     ([(''201812365'', [\<lparr>insertId = 0, json = (Arrow 2018 12 31 9, ''b'')\<rparr>]),
        (''2018364'', [\<lparr>insertId = 1, json = (Arrow 2018 3 5 8, ''a'')\<rparr>,
                      \<lparr>insertId = 2, json = (Arrow 2018 3 5 10, ''c'')\<rparr>])],
      None, 3) \<and>
   mset (concat (map (\<lambda>(k, rows). map json rows)
       [(''201812365'', [\<lparr>insertId = 0, json = (Arrow 2018 12 31 9, ''b'')\<rparr>]),
        (''2018364'', [\<lparr>insertId = 1, json = (Arrow 2018 3 5 8, ''a'')\<rparr>,
                      \<lparr>insertId = 2, json = (Arrow 2018 3 5 10, ''c'')\<rparr>])])) =
   mset (map id [(Arrow 2018 3 5 8, ''a''), (Arrow 2018 12 31 9, ''b''), (Arrow 2018 3 5 10, ''c'')])"
  using compute_batches_partition [OF compute_batches_example]
    compute_batches_example
  by simp

text \<open>
  C9.  Every row gets the value of a draw of its own: the identifiers of the rows, read
  through the sub-batches in order, are the draws \<open>n\<close>, \<open>n + 1\<close>, \<open>\<dots>\<close> of the random
  source, one per input item.  When these draws differ from each other (which is what
  version 4 UUIDs are for), no two rows of a sub-batch carry the same identifier.
\<close>

theorem compute_batches_fresh_ids:
  assumes "compute_batches ts un uuid4 n all_items = (batches, err, n')"
    and "inj_on uuid4 {n..<n + length all_items}"
  shows "concat (map (\<lambda>(k, rows). map insertId rows) batches) = map uuid4 [n..<n + length all_items] \<and>
         n' = n + length all_items \<and>
         (\<forall>(k, rows) \<in> set batches. distinct (map insertId rows))"
proof -
  have bs: "batches = fst (compute_batches ts un uuid4 n all_items)" using assms(1) by simp
  have c: "concat (map (\<lambda>b. map insertId (snd b)) batches) = map uuid4 [n..<n + length all_items]"
    unfolding bs by (rule compute_batches_ids)
  have n': "n' = n + length all_items"
    using compute_batches_count [of ts un uuid4 n all_items] assms(1) by simp
  have "distinct (map uuid4 [n..<n + length all_items])"
    using assms(2) by (simp add: distinct_map)
  then have dc: "distinct (concat (map (\<lambda>b. map insertId (snd b)) batches))" by (simp only: c)
  have d: "distinct (map insertId rows)" if "(k, rows) \<in> set batches" for k rows
  proof -
    have "map insertId (snd (k, rows)) \<in> (\<lambda>b. map insertId (snd b)) ` set batches"
      using that by (rule imageI)
    then have "map insertId rows \<in> set (map (\<lambda>b. map insertId (snd b)) batches)" by simp
    with dc show ?thesis by (simp only: distinct_concat_iff)
  qed
  have c': "concat (map (\<lambda>(k, rows). map insertId rows) batches) = map uuid4 [n..<n + length all_items]"
    using c by (simp add: case_prod_unfold)
  from c' n' d show ?thesis by blast
qed

theorem compute_batches_fresh_ids_witness:
  "compute_batches fst id id 0
       [(Arrow 2018 3 5 8, ''a''), (Arrow 2018 12 31 9, ''b''), (Arrow 2018 3 5 10, ''c'')] =
     ([(''201812365'', [\<lparr>insertId = 0, json = (Arrow 2018 12 31 9, ''b'')\<rparr>]),
        (''2018364'', [\<lparr>insertId = 1, json = (Arrow 2018 3 5 8, ''a'')\<rparr>,
                      \<lparr>insertId = 2, json = (Arrow 2018 3 5 10, ''c'')\<rparr>])],
      None, 3) \<and>
   inj_on (id :: nat \<Rightarrow> nat)
     {0..<0 + length [(Arrow 2018 3 5 8, ''a''), (Arrow 2018 12 31 9, ''b''), (Arrow 2018 3 5 10, ''c'')]} \<and>
   concat (map (\<lambda>(k, rows). map insertId rows)
       [(''201812365'', [\<lparr>insertId = 0, json = (Arrow 2018 12 31 9, ''b'')\<rparr>]),
        (''2018364'', [\<lparr>insertId = 1, json = (Arrow 2018 3 5 8, ''a'')\<rparr>,
                      \<lparr>insertId = 2, json = (Arrow 2018 3 5 10, ''c'')\<rparr>])]) =
   map id [0..<0 + length [(Arrow 2018 3 5 8, ''a''), (Arrow 2018 12 31 9, ''b''), (Arrow 2018 3 5 10, ''c'')]]"
  using compute_batches_fresh_ids [OF compute_batches_example, OF inj_on_id]
    compute_batches_example
  by simp

subsection \<open>Dispatch: auxiliary facts\<close>

lemma is_TooSlowError_iff: "is_TooSlowError e \<longleftrightarrow> e = TooSlowError"
  by (cases e) simp_all

lemma retry_from_done:
  assumes "send_once bq k table sfx batch api_timeout \<noteq> Inl TooSlowError \<or> 15 \<le> k"
  shows "retry_from rnd bq table sfx batch api_timeout k =
           (send_once bq k table sfx batch api_timeout, [Attempt k table batch sfx])"
proof (cases "send_once bq k table sfx batch api_timeout")
  case (Inr v)
  then show ?thesis by (subst retry_from.simps) simp
next
  case (Inl e)
  show ?thesis
  proof (cases "e = TooSlowError")
    case True
    with Inl assms have "15 \<le> k" by simp
    with Inl True show ?thesis
      by (subst retry_from.simps) (simp add: stop_after_attempt_def)
  next
    case False
    with Inl show ?thesis
      by (subst retry_from.simps) (simp add: is_TooSlowError_iff)
  qed
qed

lemma retry_from_again:
  assumes "send_once bq k table sfx batch api_timeout = Inl TooSlowError" and "k < 15"
  shows "retry_from rnd bq table sfx batch api_timeout k =
           (fst (retry_from rnd bq table sfx batch api_timeout (Suc k)),
            Attempt k table batch sfx # Sleep (wait_random_exponential 1 60 (rnd k) k)
              # snd (retry_from rnd bq table sfx batch api_timeout (Suc k)))"
  using assms
  by (subst retry_from.simps) (simp add: stop_after_attempt_def case_prod_unfold)

lemma retry_from_run:
  assumes "k \<le> m"
    and "\<forall>j. k \<le> j \<and> j < m \<longrightarrow> send_once bq j table sfx batch api_timeout = Inl TooSlowError"
    and "send_once bq m table sfx batch api_timeout \<noteq> Inl TooSlowError \<or> 15 \<le> m"
    and "m \<le> 15"
  shows "retry_from rnd bq table sfx batch api_timeout k =
           (send_once bq m table sfx batch api_timeout,
            concat (map (\<lambda>j. [Attempt j table batch sfx,
                                Sleep (wait_random_exponential 1 60 (rnd j) j)]) [k..<m])
              @ [Attempt m table batch sfx])"
  using assms
proof (induction "m - k" arbitrary: k)
  case 0
  then have "k = m" by simp
  then show ?case using retry_from_done [OF "0.prems"(3), of rnd] by simp
next
  case (Suc d)
  then have lt: "k < m" by simp
  then have to: "send_once bq k table sfx batch api_timeout = Inl TooSlowError"
    using Suc.prems(2) by simp
  have k15: "k < 15" using lt Suc.prems(4) by simp
  have d: "d = m - Suc k" using Suc.hyps(2) by simp
  have le: "Suc k \<le> m" using lt by simp
  have all: "\<forall>j. Suc k \<le> j \<and> j < m \<longrightarrow> send_once bq j table sfx batch api_timeout = Inl TooSlowError"
    using Suc.prems(2) by simp
  note ih = Suc.hyps(1) [OF d le all Suc.prems(3) Suc.prems(4)]
  have "[k..<m] = k # [Suc k..<m]" using lt by (simp add: upt_conv_Cons)
  then show ?case unfolding retry_from_again [OF to k15] ih by simp
qed

lemma retry_stop_point:
  fixes P :: "nat \<Rightarrow> bool"
  shows "\<exists>m. 1 \<le> m \<and> m \<le> 15 \<and> (\<forall>j. 1 \<le> j \<and> j < m \<longrightarrow> P j) \<and> (m < 15 \<longrightarrow> \<not> P m)"
proof -
  let ?Q = "\<lambda>j. 1 \<le> j \<and> (\<not> P j \<or> 15 \<le> j)"
  let ?m = "LEAST j. ?Q j"
  have q15: "?Q 15" by simp
  have qm: "?Q ?m" using q15 by (rule LeastI)
  have le: "?m \<le> 15" using q15 by (rule Least_le)
  have before: "P j" if "1 \<le> j" "j < ?m" for j
  proof -
    have "\<not> ?Q j" using that(2) by (rule not_less_Least)
    with that(1) show ?thesis by simp
  qed
  have "m < 15 \<longrightarrow> \<not> P m" if "?Q m" for m using that by auto
  with qm le before show ?thesis by blast
qed

lemma wait_random_exponential_eq:
  "wait_random_exponential 1 60 r j = r * min (2 ^ j) 60"
  by (simp add: wait_random_exponential_def uniform_def max_def min_def)

lemma wait_bounds:
  fixes r :: rat
  assumes "0 \<le> r" "r \<le> 1"
  shows "0 \<le> r * min (2 ^ j) 60 \<and> r * min (2 ^ j) 60 \<le> 60"
proof -
  have a: "(0::rat) \<le> min (2 ^ j) 60" by simp
  have b: "min (2 ^ j) 60 \<le> (60::rat)" by simp
  have "r * min (2 ^ j) 60 \<le> 1 * min (2 ^ j) 60"
    using assms(2) a by (rule mult_right_mono)
  with b have "r * min (2 ^ j) 60 \<le> 60" by simp
  moreover have "0 \<le> r * min (2 ^ j) 60" using assms(1) a by (rule mult_nonneg_nonneg)
  ultimately show ?thesis by simp
qed

lemma send_once_fault:
  "send_once bq k table sfx batch api_timeout = Inl e \<Longrightarrow>
     e = TooSlowError \<or> e = ValueError \<or> (\<exists>d. bq k (table, batch, sfx) = Raises d e)"
  by (auto simp: send_once_def fail_after_def Let_def split: if_splits reply.splits)

lemma retry_from_fault:
  "fst (retry_from rnd bq table sfx batch api_timeout k) = Inl e \<Longrightarrow>
     e = TooSlowError \<or> e = ValueError \<or> (\<exists>j d. bq j (table, batch, sfx) = Raises d e)"
proof (induction "15 - k" arbitrary: k)
  case 0
  then have "15 \<le> k" by simp
  then have "retry_from rnd bq table sfx batch api_timeout k =
      (send_once bq k table sfx batch api_timeout, [Attempt k table batch sfx])"
    by (intro retry_from_done) simp
  with "0.prems" have "send_once bq k table sfx batch api_timeout = Inl e" by simp
  then show ?case by (blast dest: send_once_fault)
next
  case (Suc d)
  show ?case
  proof (cases "send_once bq k table sfx batch api_timeout = Inl TooSlowError")
    case True
    have k15: "k < 15" using Suc.hyps(2) by simp
    have "fst (retry_from rnd bq table sfx batch api_timeout (Suc k)) = Inl e"
      using Suc.prems unfolding retry_from_again [OF True k15] by simp
    moreover have "d = 15 - Suc k" using Suc.hyps(2) by simp
    ultimately show ?thesis using Suc.hyps(1) by blast
  next
    case False
    then have "retry_from rnd bq table sfx batch api_timeout k =
      (send_once bq k table sfx batch api_timeout, [Attempt k table batch sfx])"
      by (intro retry_from_done) simp
    with Suc.prems have "send_once bq k table sfx batch api_timeout = Inl e" by simp
    then show ?thesis by (blast dest: send_once_fault)
  qed
qed

lemma retry_from_attempts:
  "Attempt j t b s \<in> set (snd (retry_from rnd bq table sfx batch api_timeout k)) \<Longrightarrow>
     t = table \<and> b = batch \<and> s = sfx"
proof (induction "15 - k" arbitrary: k)
  case 0
  then have "15 \<le> k" by simp
  then have "retry_from rnd bq table sfx batch api_timeout k =
      (send_once bq k table sfx batch api_timeout, [Attempt k table batch sfx])"
    by (intro retry_from_done) simp
  with "0.prems" show ?case by simp
next
  case (Suc d)
  show ?case
  proof (cases "send_once bq k table sfx batch api_timeout = Inl TooSlowError")
    case True
    have k15: "k < 15" using Suc.hyps(2) by simp
    have "Attempt j t b s = Attempt k table batch sfx \<or>
          Attempt j t b s \<in> set (snd (retry_from rnd bq table sfx batch api_timeout (Suc k)))"
      using Suc.prems unfolding retry_from_again [OF True k15] by simp
    moreover have "d = 15 - Suc k" using Suc.hyps(2) by simp
    ultimately show ?thesis using Suc.hyps(1) by blast
  next
    case False
    then have "retry_from rnd bq table sfx batch api_timeout k =
      (send_once bq k table sfx batch api_timeout, [Attempt k table batch sfx])"
      by (intro retry_from_done) simp
    with Suc.prems show ?thesis by simp
  qed
qed

lemma snd_send_batch:
  "snd (send_batch rnd bq table sfx batch api_timeout) =
     snd (actually_send_batch rnd bq table sfx batch api_timeout)"
  by (cases "actually_send_batch rnd bq table sfx batch api_timeout";
      cases "fst (actually_send_batch rnd bq table sfx batch api_timeout)")
    (simp_all add: send_batch_def)

lemma compute_batches_ids_subset:
  assumes "(k, rows) \<in> set (fst (compute_batches ts un u n xs))"
  shows "set (map insertId rows) \<subseteq> u ` {n..<n + length xs}"
proof -
  let ?bs = "fst (compute_batches ts un u n xs)"
  have "map insertId (snd (k, rows)) \<in> (\<lambda>b. map insertId (snd b)) ` set ?bs"
    using assms by (rule imageI)
  then have "map insertId rows \<in> set (map (\<lambda>b. map insertId (snd b)) ?bs)" by simp
  then have "set (map insertId rows) \<subseteq> set (concat (map (\<lambda>b. map insertId (snd b)) ?bs))"
    by (simp only: set_concat) blast
  then show ?thesis by (simp only: compute_batches_ids set_map set_upt)
qed

lemma retry_once_example:
  "send_batch (\<lambda>j. 0) (\<lambda>k a. if k = 1 then Hangs else Returns 1) ''downloads'' ''201812365''
       [\<lparr>insertId = 0 :: nat, json = (Arrow 2018 12 31 9, ''b'')\<rparr>] None =
     (Inr (),
      [Attempt 1 ''downloads'' [\<lparr>insertId = 0, json = (Arrow 2018 12 31 9, ''b'')\<rparr>] ''201812365'',
       Sleep 0,
       Attempt 2 ''downloads'' [\<lparr>insertId = 0, json = (Arrow 2018 12 31 9, ''b'')\<rparr>] ''201812365''])"
  by (simp add: send_batch_def actually_send_batch_def retry_from.simps send_once_def
      fail_after_def stop_after_attempt_def wait_random_exponential_def uniform_def)

lemma exhausted_example:
  "send_batch (\<lambda>j. 0) (\<lambda>k a. Hangs) ''downloads'' ''201812365'' ([] :: (nat, string) row list) None
     = (Inr (), concat (map (\<lambda>j. [Attempt j ''downloads'' [] ''201812365'', Sleep 0]) [1..<15])
                  @ [Attempt 15 ''downloads'' [] ''201812365''])"
  by (simp add: send_batch_def actually_send_batch_def retry_from.simps send_once_def
      fail_after_def stop_after_attempt_def wait_random_exponential_def uniform_def upt_conv_Cons)

lemma cancelled_example:
  "send_batch (\<lambda>j. 0) (\<lambda>k a. Raises 0 Cancelled) ''downloads'' ''201812365''
      ([] :: (nat, string) row list) None
     = (Inl Cancelled, [Attempt 1 ''downloads'' [] ''201812365''])"
  by (simp add: send_batch_def actually_send_batch_def retry_from.simps send_once_def
      fail_after_def stop_after_attempt_def)

lemma rejected_example:
  "actually_send_batch (\<lambda>j. 1 / 2) (\<lambda>k a. if k < 3 then Hangs else Raises 1 (OtherException ''rejected''))
      ''downloads'' ''201812365'' ([] :: (nat, string) row list) None
     = (Inl (OtherException ''rejected''),
        [Attempt 1 ''downloads'' [] ''201812365'', Sleep 1,
         Attempt 2 ''downloads'' [] ''201812365'', Sleep 2,
         Attempt 3 ''downloads'' [] ''201812365''])"
  by (simp add: actually_send_batch_def retry_from.simps send_once_def
      fail_after_def stop_after_attempt_def wait_random_exponential_def uniform_def)

lemma fst_send_batch:
  "fst (send_batch rnd bq table sfx batch api_timeout) =
     (case fst (actually_send_batch rnd bq table sfx batch api_timeout) of
        Inr v \<Rightarrow> Inr ()
      | Inl e \<Rightarrow> if is_Exception e then Inr () else Inl e)"
  by (cases "actually_send_batch rnd bq table sfx batch api_timeout";
      cases "fst (actually_send_batch rnd bq table sfx batch api_timeout)")
    (simp_all add: send_batch_def)

lemma not_Exception_not_TooSlowError: "\<not> is_Exception e \<Longrightarrow> Inl e \<noteq> (Inl TooSlowError :: exn + unit)"
  by (cases e) simp_all

lemma interrupted_example:
  "send_batch (\<lambda>j. 1 / 2) (\<lambda>k a. if k < 3 then Hangs else Raises 1 KeyboardInterrupt)
      ''downloads'' ''201812365'' ([] :: (nat, string) row list) None
     = (Inl KeyboardInterrupt,
        [Attempt 1 ''downloads'' [] ''201812365'', Sleep 1,
         Attempt 2 ''downloads'' [] ''201812365'', Sleep 2,
         Attempt 3 ''downloads'' [] ''201812365''])"
  by (simp add: send_batch_def actually_send_batch_def retry_from.simps send_once_def
      fail_after_def stop_after_attempt_def wait_random_exponential_def uniform_def)

lemma interrupted_inner_example:
  "fst (actually_send_batch (\<lambda>j. 1 / 2) (\<lambda>k a. if k < 3 then Hangs else Raises 1 KeyboardInterrupt)
      ''downloads'' ''201812365'' ([] :: (nat, string) row list) None) = Inl KeyboardInterrupt"
  by (simp add: actually_send_batch_def retry_from.simps send_once_def
      fail_after_def stop_after_attempt_def wait_random_exponential_def uniform_def)

subsection \<open>Retrying a delivery\<close>

text \<open>
  C5.  Every run of \<open>actually_send_batch\<close> makes some number \<open>m\<close> of attempts, between 1
  and 15.  Each attempt before the \<open>m\<close>-th failed with the timeout fault
  (\<^verbatim>\<open>TooSlowError\<close>) and was followed by a sleep and a further attempt; the \<open>m\<close>-th
  attempt is the first one that did not fail with the timeout fault, or else the
  fifteenth.  The run ends with the outcome of the \<open>m\<close>-th attempt, so a fault of any other
  class is raised at once and the timeout fault of the fifteenth attempt is raised again.
  With the random draws in the unit interval, the sleep after attempt \<open>j\<close> is the draw
  times \<open>min (2 ^ j) 60\<close>, hence between 0 and 60 seconds.  An attempt is the sink call
  under a deadline of \<open>api_timeout\<close> seconds, 15 when it is not given.
\<close>

theorem actually_send_batch_retry_policy:
  assumes "\<forall>j. 0 \<le> rnd j \<and> rnd j \<le> 1"
  shows "\<exists>m. 1 \<le> m \<and> m \<le> 15 \<and>
           (\<forall>j. 1 \<le> j \<and> j < m \<longrightarrow>
                send_once bq j table template_suffix batch api_timeout = Inl TooSlowError) \<and>
           (m < 15 \<longrightarrow>
                send_once bq m table template_suffix batch api_timeout \<noteq> Inl TooSlowError) \<and>
           actually_send_batch rnd bq table template_suffix batch api_timeout =
             (send_once bq m table template_suffix batch api_timeout,
              concat (map (\<lambda>j. [Attempt j table batch template_suffix,
                                  Sleep (rnd j * min (2 ^ j) 60)]) [1..<m])
                @ [Attempt m table batch template_suffix]) \<and>
           (\<forall>j. 0 \<le> rnd j * min (2 ^ j) 60 \<and> rnd j * min (2 ^ j) 60 \<le> 60) \<and>
           (\<forall>j. send_once bq j table template_suffix batch api_timeout =
                fail_after (case api_timeout of None \<Rightarrow> 15 | Some t \<Rightarrow> t)
                  (bq j (table, batch, template_suffix)))"
proof -
  let ?body = "\<lambda>j. send_once bq j table template_suffix batch api_timeout"
  obtain m where m: "1 \<le> m" "m \<le> 15" "\<forall>j. 1 \<le> j \<and> j < m \<longrightarrow> ?body j = Inl TooSlowError"
      "m < 15 \<longrightarrow> \<not> ?body m = Inl TooSlowError"
    using retry_stop_point [of "\<lambda>j. ?body j = Inl TooSlowError"] by blast
  have stop: "?body m \<noteq> Inl TooSlowError \<or> 15 \<le> m" using m(4) by auto
  have "retry_from rnd bq table template_suffix batch api_timeout 1 =
      (?body m, concat (map (\<lambda>j. [Attempt j table batch template_suffix,
                                Sleep (wait_random_exponential 1 60 (rnd j) j)]) [1..<m])
              @ [Attempt m table batch template_suffix])"
    using m(1) m(3) stop m(2) by (rule retry_from_run)
  then have run: "actually_send_batch rnd bq table template_suffix batch api_timeout =
      (?body m, concat (map (\<lambda>j. [Attempt j table batch template_suffix,
                                Sleep (rnd j * min (2 ^ j) 60)]) [1..<m])
              @ [Attempt m table batch template_suffix])"
    by (simp only: actually_send_batch_def wait_random_exponential_eq)
  have w: "\<forall>j. 0 \<le> rnd j * min (2 ^ j) 60 \<and> rnd j * min (2 ^ j) 60 \<le> 60"
    using assms wait_bounds by blast
  have dl: "\<forall>j. ?body j = fail_after (case api_timeout of None \<Rightarrow> 15 | Some t \<Rightarrow> t)
                  (bq j (table, batch, template_suffix))"
    by (simp add: send_once_def)
  from m(1) m(2) m(3) m(4) run w dl show ?thesis by blast
qed

theorem actually_send_batch_retry_policy_witness:
  "(0 :: rat) \<le> 1 / 2 \<and> (1 / 2 :: rat) \<le> 1 \<and>
   actually_send_batch (\<lambda>j. 1 / 2)
      (\<lambda>k a. if k < 3 then Hangs else Raises 1 (OtherException ''rejected''))
      ''downloads'' ''201812365'' ([] :: (nat, string) row list) None
     = (Inl (OtherException ''rejected''),
        [Attempt 1 ''downloads'' [] ''201812365'', Sleep 1,
         Attempt 2 ''downloads'' [] ''201812365'', Sleep 2,
         Attempt 3 ''downloads'' [] ''201812365''])"
proof -
  have h: "\<forall>j :: nat. (0 :: rat) \<le> 1 / 2 \<and> (1 / 2 :: rat) \<le> 1" by simp
  show ?thesis
    using actually_send_batch_retry_policy [OF h,
        where bq = "\<lambda>k a. if k < 3 then Hangs else Raises 1 (OtherException ''rejected'')"
          and table = "''downloads''" and batch = "[] :: (nat, string) row list"
          and template_suffix = "''201812365''" and api_timeout = None]
    unfolding rejected_example
    by simp
qed

text \<open>
  C4.  The claim: \<open>send_batch\<close> catches every fault, of any exception class, and none
  escapes.  \<^verbatim>\<open>except Exception\<close> does not catch an exception that is no instance of
  \<^verbatim>\<open>Exception\<close>: when the sink call is cancelled from outside (\<^verbatim>\<open>trio.Cancelled\<close>, as when
  the server's scope is torn down), the exception passes through \<open>send_batch\<close>.
\<close>

theorem send_batch_Cancelled_counterexample:
  "fst (send_batch (\<lambda>j. 0) (\<lambda>k a. Raises 0 Cancelled) ''downloads'' ''201812365''
      ([] :: (nat, string) row list) None) = Inl Cancelled"
  unfolding cancelled_example by simp

text \<open>
  C4, amended.  A fault of the inner call that is an instance of \<^verbatim>\<open>Exception\<close> is caught:
  \<open>send_batch\<close> returns normally.  A fault of the inner call that is no instance of
  \<^verbatim>\<open>Exception\<close> is not caught: \<open>send_batch\<close> raises it to its caller.  Hence, when every
  fault that the sink raises is an instance of \<^verbatim>\<open>Exception\<close>, \<open>send_batch\<close> returns normally
  whatever the sink does (timeouts on all fifteen attempts included); a fault that leaves
  \<open>send_batch\<close> is no instance of \<^verbatim>\<open>Exception\<close> and was raised by the sink; and a fault of
  the sink that is no instance of \<^verbatim>\<open>Exception\<close>, raised within the deadline at an attempt
  that the retry loop reaches, leaves \<open>send_batch\<close>.
\<close>

theorem send_batch_drops_Exception_faults:
  "((\<forall>k d e. bq k (table, batch, template_suffix) = Raises d e \<longrightarrow> is_Exception e) \<longrightarrow>
      fst (send_batch rnd bq table template_suffix batch api_timeout) = Inr ()) \<and>
   (\<forall>e. fst (send_batch rnd bq table template_suffix batch api_timeout) = Inl e \<longrightarrow>
      \<not> is_Exception e \<and> (\<exists>k d. bq k (table, batch, template_suffix) = Raises d e)) \<and>
   (\<forall>e. fst (actually_send_batch rnd bq table template_suffix batch api_timeout) = Inl e \<longrightarrow>
      fst (send_batch rnd bq table template_suffix batch api_timeout) =
        (if is_Exception e then Inr () else Inl e)) \<and>
   (\<forall>m e. 1 \<le> m \<and> m \<le> 15 \<and>
      (\<forall>j. 1 \<le> j \<and> j < m \<longrightarrow>
           send_once bq j table template_suffix batch api_timeout = Inl TooSlowError) \<and>
      send_once bq m table template_suffix batch api_timeout = Inl e \<and> \<not> is_Exception e \<longrightarrow>
      fst (send_batch rnd bq table template_suffix batch api_timeout) = Inl e)"
proof -
  let ?a = "actually_send_batch rnd bq table template_suffix batch api_timeout"
  let ?s = "send_batch rnd bq table template_suffix batch api_timeout"
  have s: "fst ?s = (case fst ?a of Inr v \<Rightarrow> Inr () | Inl e \<Rightarrow> if is_Exception e then Inr () else Inl e)"
    by (rule fst_send_batch)
  have origin: "e = TooSlowError \<or> e = ValueError \<or> (\<exists>j d. bq j (table, batch, template_suffix) = Raises d e)"
    if "fst ?a = Inl e" for e
    using that unfolding actually_send_batch_def by (rule retry_from_fault)
  have esc: "\<not> is_Exception e \<and> (\<exists>k d. bq k (table, batch, template_suffix) = Raises d e)"
    if "fst ?s = Inl e" for e
  proof -
    from that s have a: "fst ?a = Inl e" and n: "\<not> is_Exception e"
      by (auto split: sum.splits if_splits)
    from origin [OF a] n show ?thesis by auto
  qed
  have ok: "fst ?s = Inr ()"
    if "\<forall>k d e. bq k (table, batch, template_suffix) = Raises d e \<longrightarrow> is_Exception e"
  proof (cases "fst ?s")
    case (Inl e)
    with esc that show ?thesis by blast
  next
    case (Inr v)
    then show ?thesis by simp
  qed
  have through: "fst ?s = (if is_Exception e then Inr () else Inl e)" if "fst ?a = Inl e" for e
    unfolding s that by simp
  have sink: "fst ?s = Inl e"
    if m: "1 \<le> m" "m \<le> 15"
      and before: "\<forall>j. 1 \<le> j \<and> j < m \<longrightarrow>
           send_once bq j table template_suffix batch api_timeout = Inl TooSlowError"
      and at: "send_once bq m table template_suffix batch api_timeout = Inl e"
      and ne: "\<not> is_Exception e" for m e
  proof -
    have stop: "send_once bq m table template_suffix batch api_timeout \<noteq> Inl TooSlowError \<or> 15 \<le> m"
      unfolding at using not_Exception_not_TooSlowError [OF ne] by simp
    have "retry_from rnd bq table template_suffix batch api_timeout 1 =
        (send_once bq m table template_suffix batch api_timeout,
         concat (map (\<lambda>j. [Attempt j table batch template_suffix,
                             Sleep (wait_random_exponential 1 60 (rnd j) j)]) [1..<m])
           @ [Attempt m table batch template_suffix])"
      using m(1) before stop m(2) by (rule retry_from_run)
    then have "fst ?a = Inl e" unfolding actually_send_batch_def at by simp
    then show ?thesis using through ne by simp
  qed
  from ok esc through sink show ?thesis by blast
qed

theorem send_batch_drops_Exception_faults_witness:
  "is_Exception (OtherException ''rejected'') \<and>
   fst (send_batch (\<lambda>j. 1 / 2)
      (\<lambda>k a. if k < 3 then Hangs else Raises 1 (OtherException ''rejected''))
      ''downloads'' ''201812365'' ([] :: (nat, string) row list) None) = Inr () \<and>
   \<not> is_Exception KeyboardInterrupt \<and>
   fst (send_batch (\<lambda>j. 1 / 2)
      (\<lambda>k a. if k < 3 then Hangs else Raises 1 KeyboardInterrupt)
      ''downloads'' ''201812365'' ([] :: (nat, string) row list) None) = Inl KeyboardInterrupt"
proof -
  have e: "is_Exception (OtherException ''rejected'')" by simp
  have h: "\<forall>(k :: nat) d e. (if k < 3 then Hangs else Raises 1 (OtherException ''rejected'')) = Raises d e
      \<longrightarrow> is_Exception e"
  proof (intro allI impI)
    fix k :: nat and d e
    assume a: "(if k < 3 then Hangs else Raises 1 (OtherException ''rejected'')) = Raises d e"
    show "is_Exception e"
    proof (cases "k < 3")
      case True
      with a show ?thesis by simp
    next
      case False
      with a have "e = OtherException ''rejected''" by simp
      then show ?thesis by simp
    qed
  qed
  have dropped: "fst (send_batch (\<lambda>j. 1 / 2)
      (\<lambda>k a. if k < 3 then Hangs else Raises 1 (OtherException ''rejected''))
      ''downloads'' ''201812365'' ([] :: (nat, string) row list) None) = Inr ()"
    using send_batch_drops_Exception_faults [where
        bq = "\<lambda>k a. if k < 3 then Hangs else Raises 1 (OtherException ''rejected'')"
        and table = "''downloads''" and batch = "[] :: (nat, string) row list"
        and template_suffix = "''201812365''" and rnd = "\<lambda>j. 1 / 2" and api_timeout = None,
        THEN conjunct1]
      h
    by blast
  have n: "\<not> is_Exception KeyboardInterrupt" by simp
  note through = send_batch_drops_Exception_faults [where
        bq = "\<lambda>k a. if k < 3 then Hangs else Raises 1 KeyboardInterrupt"
        and table = "''downloads''" and batch = "[] :: (nat, string) row list"
        and template_suffix = "''201812365''" and rnd = "\<lambda>j. 1 / 2" and api_timeout = None,
        THEN conjunct2, THEN conjunct2, THEN conjunct1, rule_format, OF interrupted_inner_example]
  have escaped: "fst (send_batch (\<lambda>j. 1 / 2)
      (\<lambda>k a. if k < 3 then Hangs else Raises 1 KeyboardInterrupt)
      ''downloads'' ''201812365'' ([] :: (nat, string) row list) None) = Inl KeyboardInterrupt"
    using through n by simp
  from e dropped n escaped show ?thesis by blast
qed

text \<open>
  C3.  The claim: a retry sends freshly derived idempotency tokens, not those of the
  attempt before.  The tokens are drawn in \<open>compute_batches\<close>, before the sub-batch is
  handed to \<open>send_batch\<close>, and the retry loop calls the sink with the same list of rows each
  time: in a run whose first attempt times out, the second attempt carries the same
  \<^verbatim>\<open>insertId\<close> as the first.
\<close>

theorem retry_same_insertId_counterexample:
  "snd (send_batch (\<lambda>j. 0) (\<lambda>k a. if k = 1 then Hangs else Returns 1) ''downloads'' ''201812365''
       [\<lparr>insertId = 0 :: nat, json = (Arrow 2018 12 31 9, ''b'')\<rparr>] None) =
     [Attempt 1 ''downloads'' [\<lparr>insertId = 0 :: nat, json = (Arrow 2018 12 31 9, ''b'')\<rparr>] ''201812365'',
      Sleep 0,
      Attempt 2 ''downloads'' [\<lparr>insertId = 0 :: nat, json = (Arrow 2018 12 31 9, ''b'')\<rparr>] ''201812365'']"
  unfolding retry_once_example by simp

text \<open>
  C3, amended.  Every attempt to deliver a sub-batch of \<open>compute_batches\<close>, the first one
  and every retry, hands the sink the rows as \<open>compute_batches\<close> yielded them: the
  identifiers sent are among the draws \<open>n\<close>, \<open>\<dots>\<close>, \<open>n' - 1\<close> that \<open>compute_batches\<close> made, and
  no attempt draws a new one.
\<close>

theorem retries_resend_the_tokens_of_compute_batches:
  assumes "compute_batches ts un uuid4 n all_items = (batches, err, n')"
    and "(template_suffix, rows) \<in> set batches"
    and "Attempt k t b s \<in> set (snd (send_batch rnd bq table template_suffix rows api_timeout))"
  shows "b = rows \<and> set (map insertId b) \<subseteq> uuid4 ` {n..<n'}"
proof -
  have "Attempt k t b s \<in> set (snd (retry_from rnd bq table template_suffix rows api_timeout 1))"
    using assms(3) by (simp only: snd_send_batch actually_send_batch_def)
  then have b: "b = rows" by (blast dest: retry_from_attempts)
  have bs: "batches = fst (compute_batches ts un uuid4 n all_items)" using assms(1) by simp
  have n': "n' = n + length all_items"
    using compute_batches_count [of ts un uuid4 n all_items] assms(1) by simp
  have "set (map insertId rows) \<subseteq> uuid4 ` {n..<n + length all_items}"
    using assms(2) unfolding bs by (rule compute_batches_ids_subset)
  with b n' show ?thesis by simp
qed

theorem retries_resend_the_tokens_of_compute_batches_witness:
  "compute_batches fst id id 0
       [(Arrow 2018 3 5 8, ''a''), (Arrow 2018 12 31 9, ''b''), (Arrow 2018 3 5 10, ''c'')] =
     ([(''201812365'', [\<lparr>insertId = 0, json = (Arrow 2018 12 31 9, ''b'')\<rparr>]),
        (''2018364'', [\<lparr>insertId = 1, json = (Arrow 2018 3 5 8, ''a'')\<rparr>,
                      \<lparr>insertId = 2, json = (Arrow 2018 3 5 10, ''c'')\<rparr>])],
      None, 3) \<and>
   Attempt 2 ''downloads'' [\<lparr>insertId = 0 :: nat, json = (Arrow 2018 12 31 9, ''b'')\<rparr>] ''201812365''
     \<in> set (snd (send_batch (\<lambda>j. 0) (\<lambda>k a. if k = 1 then Hangs else Returns 1) ''downloads'' ''201812365''
       [\<lparr>insertId = 0 :: nat, json = (Arrow 2018 12 31 9, ''b'')\<rparr>] None)) \<and>
   set (map insertId [\<lparr>insertId = 0 :: nat, json = (Arrow 2018 12 31 9, ''b'')\<rparr>]) \<subseteq> id ` {0..<3}"
proof -
  have h2: "(''201812365'', [\<lparr>insertId = 0 :: nat, json = (Arrow 2018 12 31 9, ''b'')\<rparr>])
      \<in> set ([(''201812365'', [\<lparr>insertId = 0, json = (Arrow 2018 12 31 9, ''b'')\<rparr>]),
        (''2018364'', [\<lparr>insertId = 1, json = (Arrow 2018 3 5 8, ''a'')\<rparr>,
                      \<lparr>insertId = 2, json = (Arrow 2018 3 5 10, ''c'')\<rparr>])])"
    by simp
  have h3: "Attempt 2 ''downloads'' [\<lparr>insertId = 0 :: nat, json = (Arrow 2018 12 31 9, ''b'')\<rparr>] ''201812365''
     \<in> set (snd (send_batch (\<lambda>j. 0) (\<lambda>k a. if k = 1 then Hangs else Returns 1) ''downloads'' ''201812365''
       [\<lparr>insertId = 0 :: nat, json = (Arrow 2018 12 31 9, ''b'')\<rparr>] None))"
    unfolding retry_once_example by simp
  show ?thesis
    using retries_resend_the_tokens_of_compute_batches [OF compute_batches_example h2 h3]
      compute_batches_example h3
    by blast
qed

subsection \<open>The sender's cycle: auxiliary facts\<close>

lemma collect_cancelled:
  "deadline \<le> now \<Longrightarrow> collect batch_size deadline False now q batch = (batch, now, q)"
proof (cases q)
  case Nil
  assume "deadline \<le> now"
  then show ?thesis unfolding Nil by (simp add: max_def)
next
  case (Cons p rest)
  obtain t x where p: "p = (t, x)" by (cases p)
  assume "deadline \<le> now"
  then show ?thesis unfolding Cons p by (simp add: max_def)
qed

lemma collect_before_deadline:
  assumes "now < deadline"
  shows "collect batch_size deadline fresh now q batch =
           (batch @ map snd (take (nat (batch_size - int (length batch)))
                               (takeWhile (\<lambda>p. fst p < deadline) q)),
            (if int (length batch) + int (length (take (nat (batch_size - int (length batch)))
                               (takeWhile (\<lambda>p. fst p < deadline) q))) < batch_size
             then deadline
             else foldl max now (map fst (take (nat (batch_size - int (length batch)))
                               (takeWhile (\<lambda>p. fst p < deadline) q)))),
            drop (length (take (nat (batch_size - int (length batch)))
                               (takeWhile (\<lambda>p. fst p < deadline) q))) q)"
  using assms
proof (induction q arbitrary: now batch fresh)
  case Nil
  then show ?case by (simp add: max_def)
next
  case (Cons p q)
  obtain t x where p: "p = (t, x)" by (cases p)
  show ?case
  proof (cases "int (length batch) < batch_size")
    case False
    then have "nat (batch_size - int (length batch)) = 0" by simp
    with False show ?thesis unfolding p by simp
  next
    case True
    then obtain k where k: "nat (batch_size - int (length batch)) = Suc k"
      by (cases "nat (batch_size - int (length batch))") auto
    have k': "nat (batch_size - int (length (batch @ [x]))) = k" using k by simp
    have l': "int (length (batch @ [x])) = int (length batch) + 1" by simp
    show ?thesis
    proof (cases "t < deadline")
      case False
      then have "\<not> t \<le> now" using Cons.prems by simp
      with True False Cons.prems show ?thesis unfolding p by (simp add: max_def)
    next
      case t: True
      let ?tk' = "take k (takeWhile (\<lambda>p. fst p < deadline) q)"
      have tk: "take (Suc k) (takeWhile (\<lambda>p. fst p < deadline) ((t, x) # q)) = (t, x) # ?tk'"
        using t by simp
      have m: "max now t < deadline" using t Cons.prems by simp
      have step: "collect batch_size deadline fresh now ((t, x) # q) batch =
                  collect batch_size deadline False (max now t) q (batch @ [x])"
        using True t Cons.prems by (simp add: max_def)
      have ih: "collect batch_size deadline False (max now t) q (batch @ [x]) =
           ((batch @ [x]) @ map snd ?tk',
            (if int (length (batch @ [x])) + int (length ?tk') < batch_size
             then deadline else foldl max (max now t) (map fst ?tk')),
            drop (length ?tk') q)"
        using Cons.IH [OF m, where batch = "batch @ [x]" and fresh = False] unfolding k' .
      show ?thesis unfolding p k tk step ih l' by (simp add: add.commute add.left_commute)
    qed
  qed
qed

lemma foldl_max_absorb:
  fixes now :: rat
  shows "\<forall>t \<in> set ts. t \<le> now \<Longrightarrow> foldl max now ts = now"
  by (induction ts) (simp_all add: max_absorb1)

lemma collect_at_deadline:
  assumes "deadline \<le> now"
  shows "collect batch_size deadline True now q batch =
           (batch @ map snd (take (nat (batch_size - int (length batch)))
                               (takeWhile (\<lambda>p. fst p \<le> now) (take 1 q))),
            now,
            drop (length (take (nat (batch_size - int (length batch)))
                               (takeWhile (\<lambda>p. fst p \<le> now) (take 1 q)))) q)"
proof (cases q)
  case Nil
  then show ?thesis using assms by (simp add: max_def)
next
  case (Cons p rest)
  obtain t x where p: "p = (t, x)" by (cases p)
  show ?thesis
  proof (cases "int (length batch) < batch_size")
    case False
    then have "nat (batch_size - int (length batch)) = 0" by simp
    with False show ?thesis unfolding Cons p by simp
  next
    case True
    then obtain k where k: "nat (batch_size - int (length batch)) = Suc k"
      by (cases "nat (batch_size - int (length batch))") auto
    show ?thesis
    proof (cases "t \<le> now")
      case t: True
      have "collect batch_size deadline True now ((t, x) # rest) batch =
            collect batch_size deadline False now rest (batch @ [x])"
        using True t by simp
      also have "\<dots> = (batch @ [x], now, rest)" using assms by (rule collect_cancelled)
      finally show ?thesis unfolding Cons p k using t by simp
    next
      case False
      then have "\<not> t < deadline" using assms by simp
      with True False assms show ?thesis unfolding Cons p k by (simp add: max_def)
    qed
  qed
qed

lemma foldl_max_ge:
  fixes now :: rat
  shows "now \<le> foldl max now ts"
proof (induction ts arbitrary: now)
  case Nil
  show ?case by simp
next
  case (Cons t ts)
  have "now \<le> max now t" by simp
  also have "\<dots> \<le> foldl max (max now t) ts" by (rule Cons.IH)
  finally show ?case by simp
qed

lemma foldl_max_le:
  fixes now :: rat
  shows "now \<le> d \<Longrightarrow> \<forall>t \<in> set ts. t \<le> d \<Longrightarrow> foldl max now ts \<le> d"
  by (induction ts arbitrary: now) simp_all

lemma compute_batches_expand:
  "compute_batches ts un u n xs = (fst (compute_batches ts un u n xs), None, n + length xs)"
proof -
  obtain bs err n' where c: "compute_batches ts un u n xs = (bs, err, n')"
    by (cases "compute_batches ts un u n xs")
  have "err = None" using compute_batches_err [of ts un u n xs] c by simp
  moreover have "n' = n + length xs" using compute_batches_count [of ts un u n xs] c by simp
  ultimately show ?thesis using c by simp
qed

lemma compute_batches_Nil: "compute_batches ts un u n [] = ([], None, n)"
  by (simp add: compute_batches_def py_sorted_def)

lemma collect_in_cycle:
  assumes "0 \<le> bt"
    and "tk = take (nat bs) (if 0 < bt then takeWhile (\<lambda>p. fst p < now + bt) q
                             else takeWhile (\<lambda>p. fst p \<le> now) (take 1 q))"
  shows "collect bs (now + bt) True now q [] =
           (map snd tk,
            (if int (length tk) < bs then now + bt else foldl max now (map fst tk)),
            drop (length tk) q)"
proof (cases "0 < bt")
  case True
  then have lt: "now < now + bt" by simp
  have tk: "tk = take (nat bs) (takeWhile (\<lambda>p. fst p < now + bt) q)"
    using assms(2) True by simp
  show ?thesis using collect_before_deadline [OF lt, of bs True q "[]"] unfolding tk by simp
next
  case False
  then have bt: "bt = 0" using assms(1) by simp
  have tk: "tk = take (nat bs) (takeWhile (\<lambda>p. fst p \<le> now) (take 1 q))"
    using assms(2) False by simp
  have le: "now + bt \<le> now" using bt by simp
  have "\<forall>p \<in> set tk. fst p \<le> now"
  proof
    fix p assume "p \<in> set tk"
    then have "p \<in> set (takeWhile (\<lambda>p. fst p \<le> now) (take 1 q))"
      unfolding tk by (rule in_set_takeD)
    then show "fst p \<le> now" by (blast dest: set_takeWhileD)
  qed
  then have "\<forall>t \<in> set (map fst tk). t \<le> now" by simp
  then have "foldl max now (map fst tk) = now" by (rule foldl_max_absorb)
  then have e: "(if int (length tk) < bs then now + bt else foldl max now (map fst tk)) = now"
    using bt by simp
  have c: "collect bs (now + bt) True now q [] = (map snd tk, now, drop (length tk) q)"
    using collect_at_deadline [OF le, of bs q "[]"] by (simp add: tk)
  show ?thesis unfolding e by (rule c)
qed

lemma sender_cycle_spec:
  assumes "0 \<le> bt"
    and "tk = take (nat bs) (if 0 < bt then takeWhile (\<lambda>p. fst p < now + bt) q
                             else takeWhile (\<lambda>p. fst p \<le> now) (take 1 q))"
  shows "sender_cycle ts un uuid4 table bs bt api_timeout (now, n, q) =
           (map (\<lambda>(template_suffix, rows). (table, template_suffix, rows, api_timeout))
              (fst (compute_batches ts un uuid4 n (map snd tk))),
            None,
            ((if int (length tk) < bs then now + bt else foldl max now (map fst tk)),
             n + length tk, drop (length tk) q))"
proof -
  have nb: "\<not> bt < 0" using assms(1) by simp
  show ?thesis
    unfolding sender_cycle_def
    by (subst compute_batches_expand) (simp add: nb collect_in_cycle [OF assms])
qed

lemma sender_cycle_negative:
  "bt < 0 \<Longrightarrow> sender_cycle ts un uuid4 table bs bt api_timeout (now, n, q) =
     ([], Some ValueError, (now, n, q))"
  by (simp add: sender_cycle_def)

lemma cycle_end_bounds:
  fixes now bt :: rat
  assumes "0 \<le> bt"
    and "tk = take (nat bs) (if 0 < bt then takeWhile (\<lambda>p. fst p < now + bt) q
                             else takeWhile (\<lambda>p. fst p \<le> now) (take 1 q))"
    and "e = (if int (length tk) < bs then now + bt else foldl max now (map fst tk))"
  shows "now \<le> e \<and> e \<le> now + bt"
proof -
  have "\<forall>p \<in> set tk. fst p \<le> now + bt"
  proof
    fix p assume p: "p \<in> set tk"
    show "fst p \<le> now + bt"
    proof (cases "0 < bt")
      case True
      then have "p \<in> set (takeWhile (\<lambda>p. fst p < now + bt) q)"
        using p unfolding assms(2) by (auto dest: in_set_takeD)
      then have "fst p < now + bt" by (blast dest: set_takeWhileD)
      then show ?thesis by simp
    next
      case False
      then have "p \<in> set (takeWhile (\<lambda>p. fst p \<le> now) (take 1 q))"
        using p unfolding assms(2) by (auto dest: in_set_takeD)
      then have "fst p \<le> now" by (blast dest: set_takeWhileD)
      then show ?thesis using assms(1) by simp
    qed
  qed
  then have "\<forall>t \<in> set (map fst tk). t \<le> now + bt" by simp
  moreover have "now \<le> now + bt" using assms(1) by simp
  ultimately have "foldl max now (map fst tk) \<le> now + bt" by (rule foldl_max_le [rotated])
  moreover have "now \<le> foldl max now (map fst tk)" by (rule foldl_max_ge)
  ultimately show ?thesis using assms(1) unfolding assms(3) by simp
qed

lemma compute_batches_three:
  "compute_batches fst id id 0
      [(Arrow 2018 3 5 8, ''a''), (Arrow 2018 3 5 9, ''b''), (Arrow 2018 3 5 10, ''c'')] =
     ([(''2018364'', [\<lparr>insertId = 0, json = (Arrow 2018 3 5 8, ''a'')\<rparr>,
                      \<lparr>insertId = 1, json = (Arrow 2018 3 5 9, ''b'')\<rparr>,
                      \<lparr>insertId = 2, json = (Arrow 2018 3 5 10, ''c'')\<rparr>])], None, 3)"
  by (simp add: compute_batches_def py_sorted_def key_mar5)

lemma sender_example:
  "sender (Suc (Suc (Suc 0))) fst id id ''downloads'' None None None
       (0, 0, [(1, (Arrow 2018 3 5 8, ''a'')), (2, (Arrow 2018 3 5 9, ''b'')),
               (3, (Arrow 2018 3 5 10, ''c'')), (80, (Arrow 2018 3 5 11, ''d''))]) =
     ([[(''downloads'', ''2018364'',
          [\<lparr>insertId = 0, json = (Arrow 2018 3 5 8, ''a'')\<rparr>,
           \<lparr>insertId = 1, json = (Arrow 2018 3 5 9, ''b'')\<rparr>,
           \<lparr>insertId = 2, json = (Arrow 2018 3 5 10, ''c'')\<rparr>], None)],
       [], []],
      None, (63, 3, [(80, (Arrow 2018 3 5 11, ''d''))]))"
  by (simp add: sender_def sender_cycle_def compute_batches_Nil compute_batches_three)

lemma sender_zero_timeout_example:
  "sender (Suc (Suc 0)) fst id id ''downloads'' None (Some 0) None
       (5, 0, [(1, (Arrow 2018 3 5 8, ''a'')), (2, (Arrow 2018 3 5 9, ''b''))]) =
     ([[(''downloads'', ''2018364'', [\<lparr>insertId = 0, json = (Arrow 2018 3 5 8, ''a'')\<rparr>], None)],
       [(''downloads'', ''2018364'', [\<lparr>insertId = 1, json = (Arrow 2018 3 5 9, ''b'')\<rparr>], None)]],
      None, (5, 2, []))"
  by (simp add: sender_def sender_cycle_def compute_batches_def py_sorted_def key_mar5)

subsection \<open>Forming a batch\<close>

text \<open>
  C7.  A cycle of the sender starts at time \<open>now\<close>, with batch size \<open>bs\<close> (3 when unset)
  and timeout \<open>bt\<close> (30 when unset); a negative timeout is refused with \<^verbatim>\<open>ValueError\<close>
  and no cycle takes place.  With a positive timeout the cycle takes the items that the
  queue can hand over before \<open>now + bt\<close>, in order, up to \<open>bs\<close> of them; with the timeout
  0 it takes at most the one item that is already queued.  When it has taken fewer than
  \<open>bs\<close> items it ends at \<open>now + bt\<close>, when the timeout has elapsed; otherwise it ends at
  the moment the last item was taken, which is the latest of \<open>now\<close> and the items'
  arrival times and lies within the timeout.  It starts the tasks of \<open>compute_batches\<close>
  for the batch taken, none when the batch is empty, and the next cycle starts at the
  time at which this one ended, with the rest of the queue.
\<close>

theorem sender_cycle_size_or_timeout:
  assumes "bs = (case batch_size of None \<Rightarrow> 3 | Some b \<Rightarrow> b)"
    and "bt = (case batch_timeout of None \<Rightarrow> 30 | Some t \<Rightarrow> t)"
    and "taken = take (nat bs) (if 0 < bt then takeWhile (\<lambda>p. fst p < now + bt) q
                                else takeWhile (\<lambda>p. fst p \<le> now) (take 1 q))"
    and "tasks = map (\<lambda>(template_suffix, rows). (table, template_suffix, rows, api_timeout))
                   (fst (compute_batches ts un uuid4 n (map snd taken)))"
    and "e = (if int (length taken) < bs then now + bt else foldl max now (map fst taken))"
  shows "sender (Suc c) ts un uuid4 table batch_size batch_timeout api_timeout (now, n, q) =
           (if bt < 0 then ([[]], Some ValueError, (now, n, q))
            else case sender c ts un uuid4 table batch_size batch_timeout api_timeout
                        (e, n + length taken, drop (length taken) q) of
                   (started, rest) \<Rightarrow> (tasks # started, rest)) \<and>
         (taken = [] \<longrightarrow> tasks = []) \<and>
         int (length taken) \<le> max 0 bs \<and>
         (0 \<le> bt \<longrightarrow> now \<le> e \<and> e \<le> now + bt)"
proof -
  have run: "sender (Suc c) ts un uuid4 table batch_size batch_timeout api_timeout (now, n, q) =
           (if bt < 0 then ([[]], Some ValueError, (now, n, q))
            else case sender c ts un uuid4 table batch_size batch_timeout api_timeout
                        (e, n + length taken, drop (length taken) q) of
                   (started, rest) \<Rightarrow> (tasks # started, rest))"
  proof (cases "bt < 0")
    case True
    then show ?thesis
      unfolding sender_def Let_def assms(1) [symmetric] assms(2) [symmetric]
      by (simp add: sender_cycle_negative)
  next
    case False
    then have nn: "0 \<le> bt" by simp
    have cyc: "sender_cycle ts un uuid4 table bs bt api_timeout (now, n, q) =
        (tasks, None, (e, n + length taken, drop (length taken) q))"
      unfolding assms(4) assms(5) using nn assms(3) by (rule sender_cycle_spec)
    show ?thesis
      unfolding sender_def Let_def assms(1) [symmetric] assms(2) [symmetric]
      using False by (simp add: cyc case_prod_unfold)
  qed
  have none: "taken = [] \<longrightarrow> tasks = []"
    unfolding assms(4) by (simp add: compute_batches_Nil)
  have len: "int (length taken) \<le> max 0 bs" unfolding assms(3) by simp
  have bounds: "0 \<le> bt \<longrightarrow> now \<le> e \<and> e \<le> now + bt"
    using cycle_end_bounds [OF _ assms(3) assms(5)] by blast
  from run none len bounds show ?thesis by blast
qed

theorem sender_cycle_size_or_timeout_witness:
  "sender (Suc (Suc (Suc 0))) fst id id ''downloads'' None None None
       (0, 0, [(1, (Arrow 2018 3 5 8, ''a'')), (2, (Arrow 2018 3 5 9, ''b'')),
               (3, (Arrow 2018 3 5 10, ''c'')), (80, (Arrow 2018 3 5 11, ''d''))]) =
     ([[(''downloads'', ''2018364'',
          [\<lparr>insertId = 0, json = (Arrow 2018 3 5 8, ''a'')\<rparr>,
           \<lparr>insertId = 1, json = (Arrow 2018 3 5 9, ''b'')\<rparr>,
           \<lparr>insertId = 2, json = (Arrow 2018 3 5 10, ''c'')\<rparr>], None)],
       [], []],
      None, (63, 3, [(80, (Arrow 2018 3 5 11, ''d''))])) \<and>
   sender (Suc (Suc 0)) fst id id ''downloads'' None (Some 0) None
       (5, 0, [(1, (Arrow 2018 3 5 8, ''a'')), (2, (Arrow 2018 3 5 9, ''b''))]) =
     ([[(''downloads'', ''2018364'', [\<lparr>insertId = 0, json = (Arrow 2018 3 5 8, ''a'')\<rparr>], None)],
       [(''downloads'', ''2018364'', [\<lparr>insertId = 1, json = (Arrow 2018 3 5 9, ''b'')\<rparr>], None)]],
      None, (5, 2, []))"
proof -
  note full = sender_cycle_size_or_timeout [
      where batch_size = None and batch_timeout = None and c = "Suc (Suc 0)"
        and ts = fst and un = id and ?uuid4.0 = id and table = "''downloads''"
        and api_timeout = None and now = 0 and n = 0
        and q = "[(1, (Arrow 2018 3 5 8, ''a'')), (2, (Arrow 2018 3 5 9, ''b'')),
                  (3, (Arrow 2018 3 5 10, ''c'')), (80, (Arrow 2018 3 5 11, ''d''))]",
      OF refl refl refl refl refl, THEN conjunct1]
  note zero = sender_cycle_size_or_timeout [
      where batch_size = None and batch_timeout = "Some 0" and c = "Suc 0"
        and ts = fst and un = id and ?uuid4.0 = id and table = "''downloads''"
        and api_timeout = None and now = 5 and n = 0
        and q = "[(1, (Arrow 2018 3 5 8, ''a'')), (2, (Arrow 2018 3 5 9, ''b''))]",
      OF refl refl refl refl refl, THEN conjunct1]
  show ?thesis
    using full zero sender_example sender_zero_timeout_example by simp
qed

subsection \<open>The token check\<close>

lemma parse_line_rejects_wrong_token:
  "bytes_decode line = Inr s \<Longrightarrow> \<not> startswith s t \<Longrightarrow>
     parse_line sp msgf ep line (Some t) = (Inr None, [])"
  by (simp add: parse_line_def)

lemma parse_line_strips_token:
  "bytes_decode line = Inr s \<Longrightarrow> startswith s t \<Longrightarrow>
     bytes_decode rest = Inr (drop (length t) s) \<Longrightarrow>
     parse_line sp msgf ep line (Some t) = parse_line sp msgf ep rest None"
  by (simp add: parse_line_def)

lemma parse_line_without_token:
  "bytes_decode line = Inr s \<Longrightarrow>
     snd (parse_line sp msgf ep line None) \<noteq> [] \<and>
     hd (snd (parse_line sp msgf ep line None)) = SyslogParse s"
  by (simp add: parse_line_def split: sum.splits)

text \<open>
  C6.  The claim: with a token configured, a line that does not start with the token
  yields nothing and no parser is called, and a line that starts with it is parsed
  without the prefix.  The line is decoded before the token is looked at, and the decoding
  is not guarded: with the token \<^verbatim>\<open>"ab"\<close>, the line \<^verbatim>\<open>b"\xff"\<close>, which does not start with
  the token, and the line \<^verbatim>\<open>b"ab\xff"\<close>, which does, both raise \<^verbatim>\<open>UnicodeDecodeError\<close>.
  For the lines that are valid UTF-8 the claim holds, by the three lemmas above.
\<close>

theorem parse_line_token_check_after_decode:
  "parse_line sp msgf ep [0xFF] (Some [97, 98]) = (Inl UnicodeDecodeError, []) \<and>
   parse_line sp msgf ep [0x61, 0x62, 0xFF] (Some [97, 98]) = (Inl UnicodeDecodeError, [])"
  by (simp add: parse_line_def bytes_decode_def cons_ok_def)

subsection \<open>The grouping key\<close>

lemma extract_item_date_same_date:
  "year (ts a) = year (ts b) \<Longrightarrow> month (ts a) = month (ts b) \<Longrightarrow> day (ts a) = day (ts b) \<Longrightarrow>
     extract_item_date ts a = extract_item_date ts b"
  by (simp add: extract_item_date_def format_YYYYMDDD_def tm_yday_def)

text \<open>
  The key does tell the calendar dates apart: two timestamps have the same key exactly
  when they fall on the same date.
\<close>


lemma digit_char_inj: "d < 10 \<Longrightarrow> d' < 10 \<Longrightarrow> digit_char d = digit_char d' \<Longrightarrow> d = d'"
proof -
  assume a: "d < 10" "d' < 10" "digit_char d = digit_char d'"
  have dist: "distinct ''0123456789''" by simp
  have "d < length ''0123456789''" "d' < length ''0123456789''" using a by simp_all
  with dist a(3) show ?thesis unfolding digit_char_def by (simp only: nth_eq_iff_index_eq)
qed

lemma str_nat_small: "n < 10 \<Longrightarrow> str_nat n = [digit_char n]"
  by (subst str_nat.simps) simp

lemma str_nat_large: "10 \<le> n \<Longrightarrow> str_nat n = str_nat (n div 10) @ [digit_char (n mod 10)]"
  by (subst str_nat.simps) simp

lemma str_nat_nonempty: "str_nat n \<noteq> []"
  by (subst str_nat.simps) simp

lemma length_str_nat_large: "10 \<le> n \<Longrightarrow> 2 \<le> length (str_nat n)"
proof -
  assume "10 \<le> n"
  then have "length (str_nat n) = Suc (length (str_nat (n div 10)))" by (simp add: str_nat_large)
  moreover have "1 \<le> length (str_nat (n div 10))"
    using str_nat_nonempty [of "n div 10"] by (cases "str_nat (n div 10)") simp_all
  ultimately show ?thesis by simp
qed

lemma str_nat_inj: "str_nat m = str_nat n \<Longrightarrow> m = n"
proof (induction m arbitrary: n rule: str_nat.induct)
  case (1 m)
  show ?case
  proof (cases "m < 10")
    case True
    show ?thesis
    proof (cases "n < 10")
      case n: True
      with True "1.prems" show ?thesis by (simp add: str_nat_small digit_char_inj)
    next
      case False
      then have "2 \<le> length (str_nat n)" by (simp add: length_str_nat_large)
      moreover have "length (str_nat n) = 1"
        using True "1.prems" [symmetric] by (simp add: str_nat_small)
      ultimately show ?thesis by simp
    qed
  next
    case False
    then have m: "10 \<le> m" by simp
    show ?thesis
    proof (cases "n < 10")
      case True
      have "2 \<le> length (str_nat m)" using m by (rule length_str_nat_large)
      moreover have "length (str_nat m) = 1"
        using True "1.prems" by (simp add: str_nat_small)
      ultimately show ?thesis by simp
    next
      case n: False
      then have "str_nat (m div 10) @ [digit_char (m mod 10)] =
                 str_nat (n div 10) @ [digit_char (n mod 10)]"
        using "1.prems" m by (simp add: str_nat_large)
      then have a: "str_nat (m div 10) = str_nat (n div 10)"
        and b: "digit_char (m mod 10) = digit_char (n mod 10)" by simp_all
      have "m div 10 = n div 10" using "1.IH" [OF False a] .
      moreover have "m mod 10 = n mod 10" using b by (intro digit_char_inj) simp_all
      ultimately show ?thesis by (metis div_mult_mod_eq)
    qed
  qed
qed

lemma length_str_nat_10: "n < 10 \<Longrightarrow> length (str_nat n) = 1"
  by (simp add: str_nat_small)

lemma length_str_nat_100: "n < 100 \<Longrightarrow> length (str_nat n) \<le> 2"
proof (cases "n < 10")
  case True
  then show ?thesis by (simp add: str_nat_small)
next
  case False
  assume "n < 100"
  then have "n div 10 < 10" by simp
  then have "length (str_nat (n div 10)) = 1" by (rule length_str_nat_10)
  with False show ?thesis by (simp add: str_nat_large)
qed

lemma length_str_nat_1000: "n < 1000 \<Longrightarrow> length (str_nat n) \<le> 3"
proof (cases "n < 10")
  case True
  then show ?thesis by (simp add: str_nat_small)
next
  case False
  assume "n < 1000"
  then have "n div 10 < 100" by simp
  then have "length (str_nat (n div 10)) \<le> 2" by (rule length_str_nat_100)
  with False show ?thesis by (simp add: str_nat_large)
qed

lemma length_str_nat_10000: "n < 10000 \<Longrightarrow> length (str_nat n) \<le> 4"
proof (cases "n < 10")
  case True
  then show ?thesis by (simp add: str_nat_small)
next
  case False
  assume "n < 10000"
  then have "n div 10 < 1000" by simp
  then have "length (str_nat (n div 10)) \<le> 3" by (rule length_str_nat_1000)
  with False show ?thesis by (simp add: str_nat_large)
qed

lemma digit_char_0: "digit_char 0 = CHR ''0''"
  by (simp add: digit_char_def)

lemma hd_str_nat: "1 \<le> n \<Longrightarrow> hd (str_nat n) \<noteq> CHR ''0''"
proof (induction n rule: str_nat.induct)
  case (1 n)
  show ?case
  proof (cases "n < 10")
    case True
    have "digit_char n \<noteq> digit_char 0"
    proof
      assume "digit_char n = digit_char 0"
      then have "n = 0" using True by (intro digit_char_inj) simp_all
      with "1.prems" show False by simp
    qed
    with True show ?thesis by (simp add: str_nat_small digit_char_0)
  next
    case False
    then have "1 \<le> n div 10" by simp
    then have "hd (str_nat (n div 10)) \<noteq> CHR ''0''" using "1.IH" False by blast
    with False show ?thesis by (simp add: str_nat_large str_nat_nonempty)
  qed
qed

lemma dropWhile_format_04d:
  assumes "1 \<le> n"
  shows "dropWhile (\<lambda>c. c = CHR ''0'') (format_04d n) = str_nat n"
proof -
  have "dropWhile (\<lambda>c. c = CHR ''0'') (format_04d n) = dropWhile (\<lambda>c. c = CHR ''0'') (str_nat n)"
    unfolding format_04d_def by (rule dropWhile_append2) simp
  also have "\<dots> = str_nat n"
    using hd_str_nat [OF assms] by (simp add: dropWhile_eq_self_iff)
  finally show ?thesis .
qed

lemma format_04d_inj: "1 \<le> m \<Longrightarrow> 1 \<le> n \<Longrightarrow> format_04d m = format_04d n \<Longrightarrow> m = n"
proof -
  assume a: "1 \<le> m" "1 \<le> n" "format_04d m = format_04d n"
  have "str_nat m = dropWhile (\<lambda>c. c = CHR ''0'') (format_04d m)"
    using a(1) by (simp add: dropWhile_format_04d)
  also have "\<dots> = str_nat n" unfolding a(3) using a(2) by (rule dropWhile_format_04d)
  finally show ?thesis by (rule str_nat_inj)
qed

lemma length_format_04d: "n < 10000 \<Longrightarrow> length (format_04d n) = 4"
  using length_str_nat_10000 [of n] by (simp add: format_04d_def)

lemma days_in_month_bounds: "28 \<le> days_in_month y m \<and> days_in_month y m \<le> 31"
  by (simp add: days_in_month_def)

lemma days_before_month_ge: "2 \<le> m \<Longrightarrow> 31 \<le> days_before_month y m"
proof -
  assume "2 \<le> m"
  then have "[1..<m] = 1 # [2..<m]" by (simp add: upt_conv_Cons numeral_2_eq_2)
  then have "days_before_month y m = days_in_month y 1 + (\<Sum>k \<leftarrow> [2..<m]. days_in_month y k)"
    by (simp add: days_before_month_def)
  then show ?thesis by (simp add: days_in_month_def)
qed

lemma days_before_month_1: "days_before_month y 1 = 0"
  by (simp add: days_before_month_def)

lemma suffix_unique:
  assumes m: "1 \<le> m" "m \<le> 12" and m': "1 \<le> m'" "m' \<le> 12"
    and d: "d = days_before_month y m + dd" "1 \<le> dd" "dd \<le> 31"
    and d': "d' = days_before_month y' m' + dd'" "1 \<le> dd'" "dd' \<le> 31"
    and eq: "str_nat m @ str_nat d = str_nat m' @ str_nat d'"
    and lt: "m < 10" "10 \<le> m'"
  shows False
proof -
  have sm: "str_nat m = [digit_char m]" using lt(1) by (rule str_nat_small)
  have "m' div 10 < 10" using m'(2) by simp
  then have sm': "str_nat m' = [digit_char (m' div 10), digit_char (m' mod 10)]"
    using lt(2) by (simp add: str_nat_large str_nat_small)
  have m'1: "m' div 10 = 1" using lt(2) m'(2) by simp
  from eq have e: "digit_char m # str_nat d = digit_char (m' div 10) # digit_char (m' mod 10) # str_nat d'"
    unfolding sm sm' by simp
  then have "digit_char m = digit_char (m' div 10)" by simp
  then have "m = m' div 10" using lt(1) \<open>m' div 10 < 10\<close> by (intro digit_char_inj)
  then have m1: "m = 1" using m'1 by simp
  from e have "length (str_nat d) = Suc (length (str_nat d'))" by simp
  moreover have "d < 100" unfolding d(1) m1 days_before_month_1 using d(3) by simp
  then have "length (str_nat d) \<le> 2" by (rule length_str_nat_100)
  ultimately have l: "length (str_nat d') \<le> 1" by simp
  have "2 \<le> m'" using lt(2) by simp
  then have "31 \<le> days_before_month y' m'" by (rule days_before_month_ge)
  then have "10 \<le> d'" unfolding d'(1) by simp
  then have "2 \<le> length (str_nat d')" by (rule length_str_nat_large)
  with l show False by simp
qed

lemma format_YYYYMDDD_inj:
  assumes "valid_arrow a" "valid_arrow b" "format_YYYYMDDD a = format_YYYYMDDD b"
  shows "year a = year b \<and> month a = month b \<and> day a = day b"
proof -
  have va: "1 \<le> year a" "year a < 10000" "1 \<le> month a" "month a \<le> 12" "1 \<le> day a" "day a \<le> 31"
    using assms(1) days_in_month_bounds [of "year a" "month a"] by (simp_all add: valid_arrow_def)
  have vb: "1 \<le> year b" "year b < 10000" "1 \<le> month b" "month b \<le> 12" "1 \<le> day b" "day b \<le> 31"
    using assms(2) days_in_month_bounds [of "year b" "month b"] by (simp_all add: valid_arrow_def)
  have eq: "format_04d (year a) @ (str_nat (month a) @ str_nat (tm_yday a)) =
            format_04d (year b) @ (str_nat (month b) @ str_nat (tm_yday b))"
    using assms(3) by (simp add: format_YYYYMDDD_def)
  have len: "length (format_04d (year a)) = length (format_04d (year b))"
    using va(2) vb(2) by (simp add: length_format_04d)
  from eq len have y4: "format_04d (year a) = format_04d (year b)"
    and rest: "str_nat (month a) @ str_nat (tm_yday a) = str_nat (month b) @ str_nat (tm_yday b)"
    by simp_all
  have y: "year a = year b" using va(1) vb(1) y4 by (rule format_04d_inj)
  have da: "tm_yday a = days_before_month (year a) (month a) + day a" by (simp add: tm_yday_def)
  have db: "tm_yday b = days_before_month (year b) (month b) + day b" by (simp add: tm_yday_def)
  have lm: "length (str_nat (month a)) = length (str_nat (month b))"
  proof (rule ccontr)
    assume ne: "length (str_nat (month a)) \<noteq> length (str_nat (month b))"
    have both: "\<not> (month a < 10 \<and> month b < 10)" "\<not> (10 \<le> month a \<and> 10 \<le> month b)"
    proof -
      show "\<not> (month a < 10 \<and> month b < 10)" using ne by (auto simp: length_str_nat_10)
      have "length (str_nat n) = 2" if "10 \<le> n" "n \<le> 12" for n
        using length_str_nat_large [OF that(1)] length_str_nat_100 [of n] that(2) by simp
      then show "\<not> (10 \<le> month a \<and> 10 \<le> month b)" using ne va(4) vb(4) by auto
    qed
    then consider "month a < 10" "10 \<le> month b" | "month b < 10" "10 \<le> month a" by linarith
    then show False
    proof cases
      case 1
      show False
        using suffix_unique [OF va(3) va(4) vb(3) vb(4) da va(5) va(6) db vb(5) vb(6) rest 1] .
    next
      case 2
      show False
        using suffix_unique [OF vb(3) vb(4) va(3) va(4) db vb(5) vb(6) da va(5) va(6) rest [symmetric] 2] .
    qed
  qed
  from rest lm have "str_nat (month a) = str_nat (month b)" "str_nat (tm_yday a) = str_nat (tm_yday b)"
    by simp_all
  then have m: "month a = month b" and d: "tm_yday a = tm_yday b"
    by (auto dest: str_nat_inj)
  from d y m have "day a = day b" by (simp add: tm_yday_def)
  with y m show ?thesis by simp
qed

lemma extract_item_date_inj:
  "valid_arrow (ts a) \<Longrightarrow> valid_arrow (ts b) \<Longrightarrow>
     extract_item_date ts a = extract_item_date ts b \<longleftrightarrow>
       year (ts a) = year (ts b) \<and> month (ts a) = month (ts b) \<and> day (ts a) = day (ts b)"
  using format_YYYYMDDD_inj [of "ts a" "ts b"]
  by (auto simp: extract_item_date_def format_YYYYMDDD_def tm_yday_def)

text \<open>
  C2.  The claim: the grouping key is the calendar date as a key of fixed width.
  \<^verbatim>\<open>"YYYYMDDD"\<close> formats the year, the month number without padding and the day of the
  year without padding: 5 March 2018 has the key \<^verbatim>\<open>2018364\<close>, of width 7, and
  31 December 2018 the key \<^verbatim>\<open>201812365\<close>, of width 9.
\<close>

theorem extract_item_date_width_varies:
  "extract_item_date fst (Arrow 2018 3 5 8, ''a'') = ''2018364'' \<and>
   extract_item_date fst (Arrow 2018 12 31 9, ''b'') = ''201812365'' \<and>
   length (extract_item_date fst (Arrow 2018 3 5 8, ''a'')) = 7 \<and>
   length (extract_item_date fst (Arrow 2018 12 31 9, ''b'')) = 9"
  by (simp add: key_mar5 key_dec31)

end
